theory Spec2Isabelle
  imports Main "HOL-Library.Sublist" "HOL-Library.AList" "HOL-Library.Char_ord" "HOL-Library.List_Lexorder"
    "HOL-Library.Product_Lexorder"
begin

section \<open>Text primitives of the source language\<close>

text \<open>
  Documents, paths and bodies are Python \<^verbatim>\<open>str\<close> values. They are modelled as
  \<^typ>\<open>string\<close>, one \<^typ>\<open>char\<close> per code point, for code points below 256.
  \<^verbatim>\<open>str.isspace\<close> and the regular-expression class \<^verbatim>\<open>\s\<close> agree on that range:
  the code points 9-13, 28-32, 133 and 160.  The class \<^verbatim>\<open>\w\<close> holds the digits, the
  letters, the underscore and the alphanumeric code points of the upper half.
\<close>

definition NL :: char where
  "NL = CHR 0x0A"

definition DQ :: char where
  "DQ = CHR 0x22"

definition isspace :: "char \<Rightarrow> bool" where
  "isspace c = (let n = (of_char c :: nat) in
     (9 \<le> n \<and> n \<le> 13) \<or> (28 \<le> n \<and> n \<le> 32) \<or> n = 133 \<or> n = 160)"

definition isword :: "char \<Rightarrow> bool" where
  "isword c = (let n = (of_char c :: nat) in
     (48 \<le> n \<and> n \<le> 57) \<or> (65 \<le> n \<and> n \<le> 90) \<or> n = 95 \<or> (97 \<le> n \<and> n \<le> 122)
     \<or> n = 170 \<or> n = 178 \<or> n = 179 \<or> n = 181 \<or> n = 185 \<or> n = 186
     \<or> (188 \<le> n \<and> n \<le> 190) \<or> (192 \<le> n \<and> n \<le> 214) \<or> (216 \<le> n \<and> n \<le> 246)
     \<or> 248 \<le> n)"

text \<open>\<^verbatim>\<open>s.strip()\<close>: whitespace removed at both ends.\<close>

definition strip :: "string \<Rightarrow> string" where
  "strip s = rev (dropWhile isspace (rev (dropWhile isspace s)))"

text \<open>\<^verbatim>\<open>s.split(c)\<close> for a one-character separator: never the empty list (the
  first branch of the \<open>case\<close> is never taken).\<close>

fun split :: "char \<Rightarrow> string \<Rightarrow> string list" where
  "split c [] = [[]]"
| "split c (x # xs) =
     (if x = c then [] # split c xs
      else (case split c xs of [] \<Rightarrow> [[x]] | l # ls \<Rightarrow> (x # l) # ls))"

text \<open>\<^verbatim>\<open>line.startswith(p)\<close> is \<^const>\<open>prefix\<close>; \<^verbatim>\<open>cmd in s\<close> is a substring test.\<close>

fun contains :: "string \<Rightarrow> string \<Rightarrow> bool" where
  "contains cmd [] = (cmd = [])"
| "contains cmd (x # xs) = (prefix cmd (x # xs) \<or> contains cmd xs)"

section \<open>The regular expressions of the Extractor\<close>

text \<open>
  The three patterns are written in the fragment of Python's \<^verbatim>\<open>re\<close> syntax below:
  literal characters, the classes \<^verbatim>\<open>[^c]\<close>, \<^verbatim>\<open>\s\<close>, \<^verbatim>\<open>\w\<close> and \<^verbatim>\<open>.\<close> (under
  \<^verbatim>\<open>re.DOTALL\<close> the dot matches every character), concatenation, ordered alternation,
  the greedy \<^verbatim>\<open>?\<close>, the greedy \<^verbatim>\<open>*\<close> and \<^verbatim>\<open>+\<close> and the lazy \<^verbatim>\<open>*?\<close> on a
  character class, and numbered capturing groups.
\<close>

datatype cclass = Is char | IsNot char | SpaceCh | WordCh | AnyCh

fun accepts :: "cclass \<Rightarrow> char \<Rightarrow> bool" where
  "accepts (Is c) x = (x = c)"
| "accepts (IsNot c) x = (x \<noteq> c)"
| "accepts SpaceCh x = isspace x"
| "accepts WordCh x = isword x"
| "accepts AnyCh x = True"

datatype regex =
    Eps
  | Atom cclass
  | Cat regex regex
  | Alt regex regex
  | Opt regex
  | Rep cclass
  | Rep1 cclass
  | RepLazy cclass
  | Group nat regex

type_synonym caps = "nat \<Rightarrow> string"
type_synonym mstate = "string \<times> caps"

text \<open>
  A backtracking matcher explores its choices in a fixed priority order and stops at
  the first that lets the rest of the pattern succeed.  \<open>run r (s, g)\<close> lists every way
  \<open>r\<close> can match a prefix of \<open>s\<close>, as the remaining input and the captures, in that
  priority order: a greedy repetition offers the longest prefix first, a lazy one the
  shortest first, an alternation its left branch first, an option the match before the
  skip.  The match the engine reports is the head of the list.
\<close>

fun greedy :: "(char \<Rightarrow> bool) \<Rightarrow> string \<Rightarrow> string list" where
  "greedy p [] = [[]]"
| "greedy p (x # xs) = (if p x then greedy p xs @ [x # xs] else [x # xs])"

fun lazy :: "(char \<Rightarrow> bool) \<Rightarrow> string \<Rightarrow> string list" where
  "lazy p [] = [[]]"
| "lazy p (x # xs) = (x # xs) # (if p x then lazy p xs else [])"

fun run :: "regex \<Rightarrow> mstate \<Rightarrow> mstate list" where
  "run Eps st = [st]"
| "run (Atom c) (s, g) =
     (case s of [] \<Rightarrow> [] | x # xs \<Rightarrow> if accepts c x then [(xs, g)] else [])"
| "run (Cat a b) st = concat (map (run b) (run a st))"
| "run (Alt a b) st = run a st @ run b st"
| "run (Opt a) st = run a st @ [st]"
| "run (Rep c) (s, g) = map (\<lambda>r. (r, g)) (greedy (accepts c) s)"
| "run (Rep1 c) (s, g) =
     (case s of [] \<Rightarrow> []
      | x # xs \<Rightarrow> if accepts c x then map (\<lambda>r. (r, g)) (greedy (accepts c) xs) else [])"
| "run (RepLazy c) (s, g) = map (\<lambda>r. (r, g)) (lazy (accepts c) s)"
| "run (Group n a) (s, g) =
     map (\<lambda>(r, g'). (r, g'(n := take (length s - length r) s))) (run a (s, g))"

text \<open>The match at the start of \<open>s\<close>, if any: the remaining input and the captures.\<close>

definition match_here :: "regex \<Rightarrow> string \<Rightarrow> mstate option" where
  "match_here r s = (case run r (s, \<lambda>_. []) of [] \<Rightarrow> None | st # _ \<Rightarrow> Some st)"

text \<open>
  \<^verbatim>\<open>re.findall\<close> for a pattern with three groups: the non-overlapping matches from left
  to right, each as the tuple of its three groups.  The scan restarts where the last
  match ended.  None of the three patterns can match the empty string (each starts with
  a literal character), so the engine's rule for empty matches is never used; the model
  steps one character forward there.
\<close>

function findall :: "regex \<Rightarrow> string \<Rightarrow> string list list" where
  "findall r s =
     (case match_here r s of
        None \<Rightarrow> (case s of [] \<Rightarrow> [] | x # xs \<Rightarrow> findall r xs)
      | Some (rest, g) \<Rightarrow>
          [g 1, g 2, g 3] #
          (if length rest < length s then findall r rest
           else (case s of [] \<Rightarrow> [] | x # xs \<Rightarrow> findall r xs)))"
  by pat_completeness auto
termination
  by (relation "measure (\<lambda>(r, s). length s)") auto

declare findall.simps [simp del]

text \<open>A literal string, a sequence of patterns, and an ordered choice of patterns.\<close>

definition cats :: "regex list \<Rightarrow> regex" where
  "cats rs = foldr Cat rs Eps"

definition lit :: "string \<Rightarrow> regex" where
  "lit s = cats (map (\<lambda>c. Atom (Is c)) s)"

fun alts :: "regex list \<Rightarrow> regex" where
  "alts [] = Eps"
| "alts [r] = r"
| "alts (r # rs) = Alt r (alts rs)"

text \<open>The closed set of recognized extensions, in the order of the source's alternation.\<close>

definition extensions :: "string list" where
  "extensions = [''ts'', ''tsx'', ''js'', ''jsx'', ''json'', ''css'', ''html'', ''md'', ''py'',
     ''go'', ''sh'', ''yaml'', ''yml'', ''toml'', ''txt'', ''env'', ''gitignore'']"

definition ext :: regex where
  "ext = alts (map lit extensions)"

text \<open>The tail shared by the three patterns:
  \<^verbatim>\<open>```(?:\w+)?\s*\n(.*?)```\<close>.\<close>

definition fence :: regex where
  "fence = cats [lit ''```'', Opt (Rep1 WordCh), Rep SpaceCh, Atom (Is NL),
     Group 3 (RepLazy AnyCh), lit ''```'']"

text \<open>Pattern 1, a bold filename followed by a code block:
  \<^verbatim>\<open>\*\*([^\*]+\.(ts|...))\*\*\s*(?:\[.*?\])?\s*```(?:\w+)?\s*\n(.*?)```\<close>.\<close>

definition pattern1 :: regex where
  "pattern1 = cats [lit ''**'',
     Group 1 (cats [Rep1 (IsNot (CHR ''*'')), Atom (Is (CHR ''.'')), Group 2 ext]),
     lit ''**'', Rep SpaceCh,
     Opt (cats [Atom (Is (CHR ''['')), RepLazy AnyCh, Atom (Is (CHR '']''))]),
     Rep SpaceCh, fence]"

text \<open>Pattern 2, a filename as header followed by a code block:
  \<^verbatim>\<open>###?\s+([^\n]+\.(ts|...))\s*\n```(?:\w+)?\s*\n(.*?)```\<close>.\<close>

definition pattern2 :: regex where
  "pattern2 = cats [lit ''##'', Opt (Atom (Is (CHR ''#''))), Rep1 SpaceCh,
     Group 1 (cats [Rep1 (IsNot NL), Atom (Is (CHR ''.'')), Group 2 ext]),
     Rep SpaceCh, Atom (Is NL), fence]"

text \<open>Pattern 3, a filename in backticks followed by a code block:
  \<^verbatim>\<open>`([^\`]+\.(ts|...))`\s*```(?:\w+)?\s*\n(.*?)```\<close>.\<close>

definition pattern3 :: regex where
  "pattern3 = cats [lit ''`'',
     Group 1 (cats [Rep1 (IsNot (CHR ''`'')), Atom (Is (CHR ''.'')), Group 2 ext]),
     lit ''`'', Rep SpaceCh, fence]"

section \<open>The Extractor\<close>

text \<open>The command-block test of the source, on a trimmed body:
  \<^verbatim>\<open>any(cmd in content[:100] for cmd in [...])\<close>.\<close>

definition indicators :: "string list" where
  "indicators = [''npm install'', ''npm create'', ''cd '', ''#!/bin/bash'']"

definition has_indicator :: "string \<Rightarrow> bool" where
  "has_indicator content = list_ex (\<lambda>cmd. contains cmd (take 100 content)) indicators"

text \<open>\<^verbatim>\<open>line.startswith(('#', 'npm', 'cd', 'mkdir'))\<close>.\<close>

definition shell_like :: "string \<Rightarrow> bool" where
  "shell_like line = list_ex (\<lambda>p. prefix p line) [''#'', ''npm'', ''cd'', ''mkdir'']"

text \<open>\<^verbatim>\<open>len(lines) > 5 and not all(... for line in lines[:5])\<close>.\<close>

definition real_file :: "string \<Rightarrow> bool" where
  "real_file content = (let lines = split NL content in
     length lines > 5 \<and> \<not> list_all shell_like (take 5 lines))"

text \<open>Whether the loop body stores the entry: the two branches that assign.\<close>

definition kept :: "string \<Rightarrow> bool" where
  "kept content = (if has_indicator content then real_file content else True)"

text \<open>
  \<^verbatim>\<open>files_dict\<close> is a Python dict: keys are unique, an assignment to a new key appends
  it, an assignment to an old key replaces the value in place.  That is an association
  list under \<^const>\<open>AList.update\<close>.
\<close>

type_synonym files_dict = "(string \<times> string) list"

text \<open>The body of the inner loop, for one match (a tuple of groups;
  \<^const>\<open>findall\<close> only returns triples).\<close>

definition store_match :: "files_dict \<Rightarrow> string list \<Rightarrow> files_dict" where
  "store_match files_dict m =
     (let file_path = strip (m ! 0);
          content = (if length m > 2 then strip (m ! 2) else strip (m ! 1))
      in if has_indicator content
         then (if real_file content then AList.update file_path content files_dict
               else files_dict)
         else AList.update file_path content files_dict)"

definition extract_files_from_markdown :: "string \<Rightarrow> files_dict" where
  "extract_files_from_markdown markdown_content =
     foldl (\<lambda>files_dict pattern. foldl store_match files_dict (findall pattern markdown_content))
       [] [pattern1, pattern2, pattern3]"

text \<open>The two values the loop body reads from a match, and whether it stores them.\<close>

definition match_path :: "string list \<Rightarrow> string" where
  "match_path m = strip (m ! 0)"

definition match_content :: "string list \<Rightarrow> string" where
  "match_content m = (if length m > 2 then strip (m ! 2) else strip (m ! 1))"

text \<open>All matches in the order the two nested loops visit them.\<close>

definition all_matches :: "string \<Rightarrow> string list list" where
  "all_matches doc = findall pattern1 doc @ findall pattern2 doc @ findall pattern3 doc"

section \<open>Paths\<close>

text \<open>
  \<^verbatim>\<open>pathlib.Path\<close> on a POSIX system: a path is its root (empty, one slash, or exactly
  two slashes) and its components; parsing drops empty components and single dots and
  keeps double dots.
\<close>

datatype path = Path (anchor: string) (parts: "string list")

definition anchor_of :: "string \<Rightarrow> string" where
  "anchor_of s = (let n = length (takeWhile (\<lambda>c. c = CHR ''/'') s) in
     if n = 0 then [] else if n = 2 then ''//'' else ''/'')"

definition parse_path :: "string \<Rightarrow> path" where
  "parse_path s = Path (anchor_of s) (filter (\<lambda>p. p \<noteq> [] \<and> p \<noteq> ''.'') (split (CHR ''/'') s))"

text \<open>\<^verbatim>\<open>base_path / file_path\<close>: a rooted right operand replaces the left one.\<close>

definition joinpath :: "path \<Rightarrow> string \<Rightarrow> path" where
  "joinpath base key = (let k = parse_path key in
     if anchor k \<noteq> [] then k else Path (anchor base) (parts base @ parts k))"

definition parent :: "path \<Rightarrow> path" where
  "parent p = (if parts p = [] then p else Path (anchor p) (butlast (parts p)))"

fun join_with :: "string \<Rightarrow> string list \<Rightarrow> string" where
  "join_with sep [] = []"
| "join_with sep [x] = x"
| "join_with sep (x # xs) = x @ sep @ join_with sep xs"

definition path_str :: "path \<Rightarrow> string" where
  "path_str p = (if anchor p = [] \<and> parts p = [] then ''.''
     else anchor p @ join_with ''/'' (parts p))"

definition is_absolute :: "path \<Rightarrow> bool" where
  "is_absolute p = (anchor p \<noteq> [])"

section \<open>The file system\<close>

text \<open>
  The state the Materializer acts on, as the operating system keeps it: a tree of
  directories and regular files.  A location in the tree is the list of names that
  leads to it from the root of the file system; the root, the empty list, always
  exists.  The state holds the working directory of the process, the directories, the
  regular files with their contents, and the locations the process may not write (a
  write-protected file, or a directory in which it may create nothing).

  The tree has no symbolic links and no special files, permissions do not change
  during a run, and what the process creates it may write afterwards.  The limits on
  names are those of Linux: a name of at most 255 bytes, a path of at most 4095 bytes,
  no NUL character.
\<close>

datatype os_error =
  FileExistsError | NotADirectoryError | IsADirectoryError | FileNotFoundError
  | PermissionError | ValueError | OSError_ENAMETOOLONG

type_synonym location = "string list"

record filesystem =
  cwd :: location
  dirs :: "location set"
  files :: "location \<Rightarrow> string option"
  readonly :: "location set"

definition dir_at :: "filesystem \<Rightarrow> location \<Rightarrow> bool" where
  "dir_at fs n = (n = [] \<or> n \<in> dirs fs)"

definition file_at :: "filesystem \<Rightarrow> location \<Rightarrow> bool" where
  "file_at fs n = (files fs n \<noteq> None)"

text \<open>The length of a string in the encoding of the file system (UTF-8), for code
  points below 256.\<close>

definition utf8_length :: "string \<Rightarrow> nat" where
  "utf8_length s = sum_list (map (\<lambda>c. if (of_char c :: nat) < 128 then 1 else 2) s)"

text \<open>
  How the kernel follows the components of a path from a location: every component is
  looked up in a directory, a double dot leads to the directory above (the root is
  above itself), and the location reached by the last component need not exist.
\<close>

fun walk :: "filesystem \<Rightarrow> location \<Rightarrow> string list \<Rightarrow> os_error + location" where
  "walk fs n [] = Inr n"
| "walk fs n (x # xs) =
     (if dir_at fs n
      then (if 255 < utf8_length x then Inl OSError_ENAMETOOLONG
            else walk fs (if x = ''..'' then butlast n else n @ [x]) xs)
      else if file_at fs n then Inl NotADirectoryError
      else Inl FileNotFoundError)"

text \<open>The location a path denotes.  Python refuses a path with a NUL character
  before it calls the system, the system a path that is too long before it follows
  it; a relative path starts at the working directory.\<close>

definition locate :: "filesystem \<Rightarrow> path \<Rightarrow> os_error + location" where
  "locate fs p =
     (if CHR 0x00 \<in> set (path_str p) then Inl ValueError
      else if 4095 < utf8_length (path_str p) then Inl OSError_ENAMETOOLONG
      else walk fs (if anchor p = [] then cwd fs else []) (parts p))"

text \<open>\<^verbatim>\<open>p.is_dir()\<close>, where \<^verbatim>\<open>mkdir\<close> uses it: in the handler of an \<^verbatim>\<open>OSError\<close>.
  (For a name that is too long it raises that error again instead of answering; the
  handler raises in both cases.)\<close>

definition is_dir :: "filesystem \<Rightarrow> path \<Rightarrow> bool" where
  "is_dir fs p = (case locate fs p of Inl e \<Rightarrow> False | Inr n \<Rightarrow> dir_at fs n)"

text \<open>\<^verbatim>\<open>os.mkdir(p)\<close>: one new directory, in a directory that exists.\<close>

definition os_mkdir :: "filesystem \<Rightarrow> path \<Rightarrow> os_error + filesystem" where
  "os_mkdir fs p =
     (case locate fs p of
        Inl e \<Rightarrow> Inl e
      | Inr n \<Rightarrow>
          if dir_at fs n \<or> file_at fs n then Inl FileExistsError
          else if butlast n \<in> readonly fs then Inl PermissionError
          else Inr (fs\<lparr>dirs := insert n (dirs fs)\<rparr>))"

text \<open>\<^verbatim>\<open>p.mkdir(parents=False, exist_ok=True)\<close>: \<^verbatim>\<open>FileNotFoundError\<close> is raised
  again; any other \<^verbatim>\<open>OSError\<close> is ignored if the path is a directory.  A
  \<^verbatim>\<open>ValueError\<close> is no \<^verbatim>\<open>OSError\<close>.\<close>

definition mkdir_once :: "filesystem \<Rightarrow> path \<Rightarrow> os_error + filesystem" where
  "mkdir_once fs p =
     (case os_mkdir fs p of
        Inr fs' \<Rightarrow> Inr fs'
      | Inl e \<Rightarrow>
          if e = FileNotFoundError then Inl e
          else if e \<noteq> ValueError \<and> is_dir fs p then Inr fs
          else Inl e)"

text \<open>\<^verbatim>\<open>p.mkdir(parents=True, exist_ok=True)\<close>, as \<^verbatim>\<open>pathlib\<close> has it: on
  \<^verbatim>\<open>FileNotFoundError\<close> the parent is made first, in the same way, and the
  directory then made without \<^verbatim>\<open>parents\<close>.\<close>

function mkdir_p :: "filesystem \<Rightarrow> path \<Rightarrow> os_error + filesystem" where
  "mkdir_p fs p =
     (case os_mkdir fs p of
        Inr fs' \<Rightarrow> Inr fs'
      | Inl e \<Rightarrow>
          if e = FileNotFoundError
          then (if parent p = p then Inl e
                else (case mkdir_p fs (parent p) of
                        Inl e' \<Rightarrow> Inl e'
                      | Inr fs1 \<Rightarrow> mkdir_once fs1 p))
          else if e \<noteq> ValueError \<and> is_dir fs p then Inr fs
          else Inl e)"
  by pat_completeness auto
termination
  by (relation "measure (\<lambda>(fs, p). length (parts p))")
     (auto simp: parent_def split: if_splits)

declare mkdir_p.simps [simp del]

text \<open>\<^verbatim>\<open>open(p, 'w')\<close> followed by \<^verbatim>\<open>f.write(content)\<close>: the file is created or
  emptied, and holds exactly the content afterwards.\<close>

definition open_write :: "filesystem \<Rightarrow> path \<Rightarrow> string \<Rightarrow> os_error + filesystem" where
  "open_write fs p content =
     (case locate fs p of
        Inl e \<Rightarrow> Inl e
      | Inr n \<Rightarrow>
          if dir_at fs n then Inl IsADirectoryError
          else if n \<in> readonly fs \<or> (\<not> file_at fs n \<and> butlast n \<in> readonly fs)
            then Inl PermissionError
          else Inr (fs\<lparr>files := (files fs)(n \<mapsto> content)\<rparr>))"

text \<open>\<^verbatim>\<open>p.relative_to(other)\<close>.\<close>

definition relative_to :: "path \<Rightarrow> path \<Rightarrow> os_error + path" where
  "relative_to p other =
     (if anchor p = anchor other \<and> prefix (parts other) (parts p)
      then Inr (Path [] (drop (length (parts other)) (parts p)))
      else Inl ValueError)"

section \<open>The Materializer\<close>

text \<open>What the run prints: one line per directory created, per file written, per
  write that failed.  Printing itself is taken to succeed.\<close>

datatype message =
  Created_directory path | Created_file string | Error_creating string os_error

record run_state =
  fs :: filesystem
  dirs_created :: "string set"
  files_created :: "string list"
  printed :: "message list"

text \<open>The first half of the loop body: the parent directory.  An exception here is
  not caught.\<close>

definition ensure_parent :: "path \<Rightarrow> bool \<Rightarrow> run_state \<Rightarrow> string \<Rightarrow> os_error + run_state" where
  "ensure_parent base_path verbose st file_path =
     (let full_path = joinpath base_path file_path;
          parent_dir = parent full_path
      in if parent_dir \<noteq> base_path \<and> path_str parent_dir \<notin> dirs_created st
         then (case mkdir_p (fs st) parent_dir of
                 Inl e \<Rightarrow> Inl e
               | Inr fs' \<Rightarrow>
                   (let st' = st\<lparr>fs := fs',
                          dirs_created := insert (path_str parent_dir) (dirs_created st)\<rparr>
                    in if verbose
                       then (case relative_to parent_dir base_path of
                               Inl e \<Rightarrow> Inl e
                             | Inr rel \<Rightarrow>
                                 Inr (st'\<lparr>printed := printed st' @ [Created_directory rel]\<rparr>))
                       else Inr st'))
         else Inr st)"

text \<open>The second half: the \<^verbatim>\<open>try\<close> block and its handler.\<close>

definition write_entry :: "path \<Rightarrow> bool \<Rightarrow> run_state \<Rightarrow> string \<times> string \<Rightarrow> run_state" where
  "write_entry base_path verbose st entry =
     (case entry of (file_path, content) \<Rightarrow>
        (case open_write (fs st) (joinpath base_path file_path) content of
           Inr fs' \<Rightarrow>
             st\<lparr>fs := fs', files_created := files_created st @ [file_path],
                printed := (if verbose then printed st @ [Created_file file_path] else printed st)\<rparr>
         | Inl e \<Rightarrow> st\<lparr>printed := printed st @ [Error_creating file_path e]\<rparr>))"

fun process_entries ::
  "path \<Rightarrow> bool \<Rightarrow> run_state \<Rightarrow> (string \<times> string) list \<Rightarrow> os_error + run_state" where
  "process_entries base_path verbose st [] = Inr st"
| "process_entries base_path verbose st (entry # entries) =
     (case ensure_parent base_path verbose st (fst entry) of
        Inl e \<Rightarrow> Inl e
      | Inr st' \<Rightarrow> process_entries base_path verbose (write_entry base_path verbose st' entry) entries)"

record outcome =
  final :: run_state
  dirs_count :: nat
  files_count :: nat

text \<open>\<^verbatim>\<open>sorted(files_dict.items())\<close> orders the pairs lexicographically, strings by code
  point.\<close>

definition create_project_structure ::
  "files_dict \<Rightarrow> string \<Rightarrow> bool \<Rightarrow> filesystem \<Rightarrow> os_error + outcome" where
  "create_project_structure files_dict base_dir verbose fs0 =
     (let base_path = parse_path base_dir
      in case mkdir_p fs0 base_path of
           Inl e \<Rightarrow> Inl e
         | Inr fs1 \<Rightarrow>
             (case process_entries base_path verbose
                     \<lparr>fs = fs1, dirs_created = {}, files_created = [], printed = []\<rparr>
                     (sort files_dict) of
                Inl e \<Rightarrow> Inl e
              | Inr st \<Rightarrow>
                  Inr \<lparr>final = st, dirs_count = card (dirs_created st),
                       files_count = length (files_created st)\<rparr>))"

section \<open>Example inputs\<close>

text \<open>A bold \<^verbatim>\<open>app.py\<close> followed by a fenced block, with and without a line break and
  a language tag between the two.\<close>

definition doc_app :: string where
  "doc_app = ''**app.py**'' @ [NL] @ ''```python'' @ [NL] @
     ''print('' @ [DQ] @ ''hi'' @ [DQ] @ '')'' @ [NL] @ ''```''"

definition doc_app_bare :: string where
  "doc_app_bare = ''**app.py**```'' @ [NL] @ ''print('' @ [DQ] @ ''hi'' @ [DQ] @ '')```''"

text \<open>A bold and a second-level heading for the same path, both with ordinary bodies.\<close>

definition doc_both :: string where
  "doc_both = ''**a.py**'' @ [NL] @ ''```'' @ [NL] @ ''old'' @ [NL] @ ''```'' @ [NL] @
     ''## a.py'' @ [NL] @ ''```'' @ [NL] @ ''new'' @ [NL] @ ''```''"

text \<open>The same, where the body under the heading is a short command transcript.\<close>

definition doc_discard :: string where
  "doc_discard = ''**a.sh**'' @ [NL] @ ''```'' @ [NL] @ ''echo hi'' @ [NL] @ ''```'' @ [NL] @
     ''## a.sh'' @ [NL] @ ''```'' @ [NL] @ ''npm install'' @ [NL] @ ''```''"

text \<open>A first-level heading followed by a fenced block.\<close>

definition doc_h1 :: string where
  "doc_h1 = ''# app.py'' @ [NL] @ ''```'' @ [NL] @ ''x'' @ [NL] @ ''```''"

text \<open>A bold path that starts at the root of the file system.\<close>

definition doc_abs :: string where
  "doc_abs = ''**/etc/app.py**'' @ [NL] @ ''```'' @ [NL] @ ''x'' @ [NL] @ ''```''"

text \<open>Three matches whose bodies hold a shell indicator: a two-line transcript, a
  script of eight lines behind a shebang line, and two install commands.\<close>

definition match_cd :: "string list" where
  "match_cd = [''run.sh'', ''sh'', ''cd src'' @ [NL] @ ''ls'' @ [NL]]"

definition match_bash :: "string list" where
  "match_bash = [''build.sh'', ''sh'',
     ''#!/bin/bash'' @ [NL] @ ''set -e'' @ [NL] @ ''echo a'' @ [NL] @ ''echo b'' @ [NL] @
     ''echo c'' @ [NL] @ ''echo d'' @ [NL] @ ''echo e'' @ [NL] @ ''echo f'' @ [NL]]"

definition match_npm :: "string list" where
  "match_npm = [''setup.md'', ''md'', ''npm install'' @ [NL] @ ''npm start'' @ [NL]]"

text \<open>Three more bodies: one line with \<^verbatim>\<open>npm install\<close> behind a hundred other
  characters; a script of six lines whose first five are a shebang line, a comment, an
  install, a change of directory and a \<^verbatim>\<open>mkdir\<close>; and a line of Python.\<close>

definition match_far_npm :: "string list" where
  "match_far_npm = [''setup.md'', ''md'', replicate 100 (CHR ''x'') @ '' npm install'' @ [NL]]"

definition match_setup :: "string list" where
  "match_setup = [''setup.sh'', ''sh'',
     ''#!/bin/bash'' @ [NL] @ ''# tools'' @ [NL] @ ''npm install'' @ [NL] @ ''cd src'' @ [NL] @
     ''mkdir out'' @ [NL] @ ''echo done'' @ [NL]]"

definition match_plain :: "string list" where
  "match_plain = [''a.py'', ''py'', ''x = 1'' @ [NL]]"

text \<open>File systems: the working directory \<^verbatim>\<open>/work\<close> with nothing in it; the same
  with the target directory \<^verbatim>\<open>out\<close> holding a write-protected \<^verbatim>\<open>a.txt\<close>; the
  latter with a writable \<^verbatim>\<open>b.txt\<close> of other content beside it; and the states in
  which a run starts there.\<close>

definition empty_fs :: filesystem where
  "empty_fs = \<lparr>cwd = [''work''], dirs = {[''work'']}, files = (\<lambda>_. None), readonly = {}\<rparr>"

definition locked_fs :: filesystem where
  "locked_fs = \<lparr>cwd = [''work''], dirs = {[''work''], [''work'', ''out'']},
     files = (\<lambda>_. None)([''work'', ''out'', ''a.txt''] \<mapsto> ''old''),
     readonly = {[''work'', ''out'', ''a.txt'']}\<rparr>"

definition stale_fs :: filesystem where
  "stale_fs = \<lparr>cwd = [''work''], dirs = {[''work''], [''work'', ''out'']},
     files = (\<lambda>_. None)([''work'', ''out'', ''a.txt''] \<mapsto> ''old'',
                           [''work'', ''out'', ''b.txt''] \<mapsto> ''stale''),
     readonly = {[''work'', ''out'', ''a.txt'']}\<rparr>"

definition locked_start :: run_state where
  "locked_start = \<lparr>fs = locked_fs, dirs_created = {}, files_created = [], printed = []\<rparr>"


text \<open>The target directory with a regular file \<^verbatim>\<open>a\<close> in it; a target directory in
  which nothing may be created; one whose subdirectory \<^verbatim>\<open>d\<close> holds a directory
  named \<^verbatim>\<open>a.txt\<close>; and the state in which a run starts in the first of them.\<close>

definition blocked_fs :: filesystem where
  "blocked_fs = \<lparr>cwd = [''work''], dirs = {[''work''], [''work'', ''out'']},
     files = (\<lambda>_. None)([''work'', ''out'', ''a''] \<mapsto> ''f''), readonly = {}\<rparr>"

definition protected_fs :: filesystem where
  "protected_fs = \<lparr>cwd = [''work''], dirs = {[''work''], [''work'', ''out'']},
     files = (\<lambda>_. None), readonly = {[''work'', ''out'']}\<rparr>"

definition occupied_fs :: filesystem where
  "occupied_fs = \<lparr>cwd = [''work''],
     dirs = {[''work''], [''work'', ''out''], [''work'', ''out'', ''d''],
             [''work'', ''out'', ''d'', ''a.txt'']},
     files = (\<lambda>_. None), readonly = {}\<rparr>"

definition blocked_start :: run_state where
  "blocked_start = \<lparr>fs = blocked_fs, dirs_created = {}, files_created = [], printed = []\<rparr>"

text \<open>The mappings used as examples.\<close>

definition two_top_files :: files_dict where
  "two_top_files = [(''a.txt'', ''x''), (''b.txt'', ''y'')]"


definition one_nested_file :: files_dict where
  "one_nested_file = [(''a/b/c.txt'', ''x'')]"

text \<open>A mapping whose first entry lies in a subdirectory \<^verbatim>\<open>a\<close>; one entry in a
  subdirectory \<^verbatim>\<open>d\<close>; two entries in one subdirectory, written in two ways; and an
  entry that names the target directory from above.\<close>

definition blocked_files :: files_dict where
  "blocked_files = [(''a/x.txt'', ''1''), (''b.txt'', ''2'')]"

definition nested_file_d :: files_dict where
  "nested_file_d = [(''d/a.txt'', ''x'')]"


definition root_respelled :: files_dict where
  "root_respelled = [(''../out/a.txt'', ''x'')]"

text \<open>Second- and third-level headings: one over a short command transcript, and
  one whose text is only a dot and an extension.\<close>

definition doc_h2_command :: string where
  "doc_h2_command = ''## setup.sh'' @ [NL] @ ''```'' @ [NL] @ ''npm install'' @ [NL] @ ''```''"

definition doc_h2_dotfile :: string where
  "doc_h2_dotfile = ''## .gitignore'' @ [NL] @ ''```'' @ [NL] @ ''*.pyc'' @ [NL] @ ''```''"

text \<open>What may stand before a heading: a title, a section title and a paragraph; or
  an earlier heading with its block.  Two bodies, one indented and one a command.  And
  a document in which a heading with its block follows a fence that its own fence
  closes.\<close>

definition section_intro :: string where
  "section_intro = ''# Title'' @ [NL] @ [NL] @ ''## Section'' @ [NL] @ [NL] @
     ''Some text.'' @ [NL] @ [NL]"

definition first_block :: string where
  "first_block = ''## a.py'' @ [NL] @ ''```'' @ [NL] @ ''x'' @ [NL] @ ''```'' @ [NL]"

definition install_body :: string where
  "install_body = ''npm install'' @ [NL]"

definition doc_swallowed :: string where
  "doc_swallowed = ''## notes.md'' @ [NL] @ ''```'' @ [NL] @ ''draft'' @ [NL] @
     ''## b.py'' @ [NL] @ ''```'' @ [NL] @ ''y'' @ [NL] @ ''```''"

definition indented_body :: string where
  "indented_body = [NL] @ ''  x = 1'' @ [NL]"

section \<open>Notions used in the statements\<close>

text \<open>The paths \<^const>\<open>parse_path\<close> produces: no component is empty, a single dot, or holds
  a slash.\<close>

definition wf_path :: "path \<Rightarrow> bool" where
  "wf_path p = (anchor p \<in> {[], ''/'', ''//''}
     \<and> list_all (\<lambda>x. x \<noteq> [] \<and> x \<noteq> ''.'' \<and> CHR ''/'' \<notin> set x) (parts p))"

text \<open>The paths of the immediate parent directories of the entries' target files,
  the path of the root of the run left out.  They are paths as \<^verbatim>\<open>pathlib\<close> keeps
  them, double dots included: two of them may lead to one directory.\<close>

definition parent_dirs :: "path \<Rightarrow> string set \<Rightarrow> path set" where
  "parent_dirs base keys =
     {parent (joinpath base k) |k. k \<in> keys \<and> parent (joinpath base k) \<noteq> base}"

fun is_dir_record :: "message \<Rightarrow> bool" where
  "is_dir_record (Created_directory p) = True"
| "is_dir_record m = False"

fun is_error_record :: "message \<Rightarrow> bool" where
  "is_error_record (Error_creating k e) = True"
| "is_error_record m = False"

text \<open>As many creation records were printed as directories are in the set.\<close>

definition records_match :: "run_state \<Rightarrow> bool" where
  "records_match st = (finite (dirs_created st)
     \<and> length (filter is_dir_record (printed st)) = card (dirs_created st))"

text \<open>The entries dealt with so far: written, or reported as failed.\<close>

definition accounted :: "run_state \<Rightarrow> nat" where
  "accounted st = length (files_created st) + length (filter is_error_record (printed st))"

text \<open>The strings a pattern can consume, whatever the engine's priorities.\<close>

fun lang :: "regex \<Rightarrow> string set" where
  "lang Eps = {[]}"
| "lang (Atom c) = {[x] |x. accepts c x}"
| "lang (Cat a b) = {u @ v |u v. u \<in> lang a \<and> v \<in> lang b}"
| "lang (Alt a b) = lang a \<union> lang b"
| "lang (Opt a) = insert [] (lang a)"
| "lang (Rep c) = {w. list_all (accepts c) w}"
| "lang (Rep1 c) = {w. w \<noteq> [] \<and> list_all (accepts c) w}"
| "lang (RepLazy c) = {w. list_all (accepts c) w}"
| "lang (Group n a) = lang a"

text \<open>Whether every successful match of a pattern assigns group \<open>n\<close>, and the strings
  the group can then hold.\<close>

fun sets_group :: "nat \<Rightarrow> regex \<Rightarrow> bool" where
  "sets_group n (Group m a) = (m = n \<or> sets_group n a)"
| "sets_group n (Cat a b) = (sets_group n a \<or> sets_group n b)"
| "sets_group n (Alt a b) = (sets_group n a \<and> sets_group n b)"
| "sets_group n r = False"

fun group_lang :: "nat \<Rightarrow> regex \<Rightarrow> string set" where
  "group_lang n (Group m a) = (if m = n then lang a else group_lang n a)"
| "group_lang n (Cat a b) = group_lang n a \<union> group_lang n b"
| "group_lang n (Alt a b) = group_lang n a \<union> group_lang n b"
| "group_lang n (Opt a) = group_lang n a"
| "group_lang n r = {}"

text \<open>A name part, a dot, and a recognized extension.\<close>

definition named :: "string set" where
  "named = {x @ ''.'' @ e |x e. e \<in> set extensions}"

text \<open>No location is both a directory and a file.\<close>

definition wf_fs :: "filesystem \<Rightarrow> bool" where
  "wf_fs a = (\<forall>n. \<not> (dir_at a n \<and> file_at a n))"

text \<open>What a run can do to the file system: the working directory and the
  permissions stay, directories and files are only added, and a file is only added in
  a directory that may be written.\<close>

definition grows :: "filesystem \<Rightarrow> filesystem \<Rightarrow> bool" where
  "grows a c = (cwd c = cwd a \<and> readonly c = readonly a \<and> dirs a \<subseteq> dirs c
     \<and> (\<forall>n. file_at a n \<longrightarrow> file_at c n)
     \<and> (\<forall>n. file_at c n \<longrightarrow> file_at a n \<or> butlast n \<notin> readonly a))"

text \<open>The same working directory, permissions, directories and set of files; contents
  may differ.\<close>

definition same_shape :: "filesystem \<Rightarrow> filesystem \<Rightarrow> bool" where
  "same_shape c t = (cwd t = cwd c \<and> readonly t = readonly c \<and> dirs t = dirs c
     \<and> (\<forall>n. file_at t n = file_at c n))"

text \<open>The entries a run has written to a location, in the order processed: the entry
  is counted as written and its target path denotes the location.\<close>

definition written_to ::
  "path \<Rightarrow> run_state \<Rightarrow> files_dict \<Rightarrow> location \<Rightarrow> files_dict" where
  "written_to b st es n =
     filter (\<lambda>(k, c). k \<in> set (files_created st)
                      \<and> locate (fs st) (joinpath b k) = Inr n) es"

text \<open>The root of the run and every directory recorded as created exist.\<close>

definition parents_exist :: "path \<Rightarrow> run_state \<Rightarrow> bool" where
  "parents_exist b st = (is_dir (fs st) b
     \<and> (\<forall>q. wf_path q \<longrightarrow> path_str q \<in> dirs_created st \<longrightarrow> is_dir (fs st) q))"

text \<open>The first entry of a list of successes: the match the engine reports.\<close>

definition leads :: "mstate \<Rightarrow> mstate list \<Rightarrow> bool" where
  "leads x L = (case L of [] \<Rightarrow> False | y # ys \<Rightarrow> y = x)"

text \<open>A repetition of a character class cannot go on into this input.\<close>

definition stops :: "(char \<Rightarrow> bool) \<Rightarrow> string \<Rightarrow> bool" where
  "stops p s = (case s of [] \<Rightarrow> True | x # xs \<Rightarrow> \<not> p x)"

text \<open>The directories named by the creation records of a run, in the order printed;
  the path a record stands for below the root; and the relation the loop keeps between
  the records printed and the set of directories recorded.\<close>

definition created_dirs :: "message list \<Rightarrow> path list" where
  "created_dirs ms = concat (map (\<lambda>m. case m of Created_directory p \<Rightarrow> [p] | _ \<Rightarrow> []) ms)"

definition below :: "path \<Rightarrow> path \<Rightarrow> path" where
  "below b rel = Path (anchor b) (parts b @ parts rel)"

definition dir_records_ok :: "path \<Rightarrow> run_state \<Rightarrow> bool" where
  "dir_records_ok b st =
     (distinct (map (\<lambda>rel. path_str (below b rel)) (created_dirs (printed st)))
      \<and> (\<lambda>rel. path_str (below b rel)) ` set (created_dirs (printed st)) = dirs_created st
      \<and> list_all (\<lambda>rel. wf_path (below b rel) \<and> relative_to (below b rel) b = Inr rel)
            (created_dirs (printed st)))"

text \<open>No match of the pattern that starts in \<open>pre\<close> reaches into \<open>d\<close>, in the
  input \<open>pre @ d\<close>: wherever the pattern matches at a position of \<open>pre\<close>, the
  match ends before \<open>d\<close> begins.\<close>

definition clear_before :: "regex \<Rightarrow> string \<Rightarrow> string \<Rightarrow> bool" where
  "clear_before r pre d =
     list_all (\<lambda>u. case match_here r (u @ d) of
                      None \<Rightarrow> True
                    | Some (rest, g) \<Rightarrow> length d \<le> length rest)
       (tl (suffixes pre))"

section \<open>Properties of the command-block filter\<close>

lemma store_match_kept:
  "store_match fd m =
     (if kept (match_content m) then AList.update (match_path m) (match_content m) fd else fd)"
  by (simp add: store_match_def kept_def match_path_def match_content_def Let_def)

lemma store_match_indicator:
  "has_indicator (match_content m) \<Longrightarrow>
   store_match fd m =
     (if real_file (match_content m)
      then AList.update (match_path m) (match_content m) fd else fd)"
  by (simp add: store_match_kept kept_def)

lemma split_nonempty: "split c s \<noteq> []"
  by (induction s) (auto split: list.splits)

lemma hd_split_prefix: "prefix (hd (split c s)) s"
  by (induction s) (auto split: list.splits)

lemma contains_iff: "contains cmd s \<longleftrightarrow> (\<exists>ps ss. s = ps @ cmd @ ss)"
proof (induction s)
  case Nil
  then show ?case by auto
next
  case (Cons x xs)
  show ?case
  proof
    assume "contains cmd (x # xs)"
    then consider "prefix cmd (x # xs)" | "contains cmd xs" by auto
    then show "\<exists>ps ss. x # xs = ps @ cmd @ ss"
    proof cases
      case 1
      then obtain ss where "x # xs = cmd @ ss" by (auto simp: prefix_def)
      then have "x # xs = [] @ cmd @ ss" by simp
      then show ?thesis by blast
    next
      case 2
      with Cons.IH obtain ps ss where "xs = ps @ cmd @ ss" by blast
      then have "x # xs = (x # ps) @ cmd @ ss" by simp
      then show ?thesis by blast
    qed
  next
    assume "\<exists>ps ss. x # xs = ps @ cmd @ ss"
    then obtain ps ss where eq: "x # xs = ps @ cmd @ ss" by blast
    show "contains cmd (x # xs)"
    proof (cases ps)
      case Nil
      with eq have "prefix cmd (x # xs)" by (simp add: prefix_def)
      then show ?thesis by simp
    next
      case (Cons p ps')
      with eq have "xs = ps' @ cmd @ ss" by simp
      with Cons.IH have "contains cmd xs" by blast
      then show ?thesis by simp
    qed
  qed
qed

lemma contains_mono: "contains cmd a \<Longrightarrow> prefix a b \<Longrightarrow> contains cmd b"
  unfolding contains_iff prefix_def by (metis append.assoc)

lemma contains_prefix: "prefix cmd s \<Longrightarrow> contains cmd s"
  unfolding contains_iff prefix_def by (metis append_Nil)

lemma take_prefix_mono: "prefix a b \<Longrightarrow> prefix (take n a) (take n b)"
  by (metis prefix_def take_append prefixI)

lemma has_indicatorI:
  "cmd \<in> set indicators \<Longrightarrow> contains cmd (take 100 c) \<Longrightarrow> has_indicator c"
  by (auto simp: has_indicator_def list_ex_iff)

lemma bash_indicator:
  assumes "hd (split NL c) = ''#!/bin/bash''"
  shows "has_indicator c"
proof -
  have "prefix ''#!/bin/bash'' c" using hd_split_prefix[of NL c] assms by simp
  then have "prefix (take 100 ''#!/bin/bash'') (take 100 c)" by (rule take_prefix_mono)
  then have "contains ''#!/bin/bash'' (take 100 c)" by (auto intro: contains_prefix)
  then show ?thesis by (rule has_indicatorI[rotated]) (simp add: indicators_def)
qed

lemma npm_indicator:
  assumes "contains ''npm install'' (take 100 (hd (split NL c)))"
  shows "has_indicator c"
proof -
  have "prefix (take 100 (hd (split NL c))) (take 100 c)"
    by (rule take_prefix_mono) (rule hd_split_prefix)
  with assms have "contains ''npm install'' (take 100 c)" by (rule contains_mono)
  then show ?thesis by (rule has_indicatorI[rotated]) (simp add: indicators_def)
qed

lemma first_five:
  assumes "length ls = 8" "hd ls = ''#!/bin/bash''" "\<not> list_all shell_like (take 4 (tl ls))"
  shows "\<not> list_all shell_like (take 5 ls)"
proof -
  from assms(1) obtain l rest where ls: "ls = l # rest" by (cases ls) auto
  then have "take 5 ls = l # take 4 rest"
    by (simp add: take_Cons')
  with assms(3) ls show ?thesis by simp
qed

lemma shebang_script_kept:
  assumes a1: "hd (split NL c) = ''#!/bin/bash''"
    and a2: "length (split NL c) = 8"
    and a3: "\<not> list_all shell_like (take 4 (tl (split NL c)))"
  shows "kept c"
proof -
  have "has_indicator c" using a1 by (rule bash_indicator)
  moreover have "\<not> list_all shell_like (take 5 (split NL c))"
    using a2 a1 a3 by (rule first_five)
  moreover have "length (split NL c) > 5" unfolding a2 by simp
  ultimately show ?thesis unfolding kept_def real_file_def Let_def by simp
qed

lemma short_install_discarded:
  assumes a1: "contains ''npm install'' (take 100 (hd (split NL c)))"
    and a2: "length (split NL c) < 5"
  shows "\<not> kept c"
proof -
  have "has_indicator c" using a1 by (rule npm_indicator)
  moreover have "\<not> length (split NL c) > 5" using a2 by simp
  ultimately show ?thesis unfolding kept_def real_file_def Let_def by simp
qed

lemma shell_like_eq:
  "shell_like = (\<lambda>line. prefix ''#'' line \<or> prefix ''npm'' line \<or> prefix ''cd'' line
                   \<or> prefix ''mkdir'' line)"
  by (rule ext) (simp add: shell_like_def)

lemma has_indicator_eq:
  "has_indicator c = list_ex (\<lambda>cmd. contains cmd (take 100 c))
     [''npm install'', ''npm create'', ''cd '', ''#!/bin/bash'']"
  by (simp only: has_indicator_def indicators_def)

text \<open>
  C3, as the code has it.  A body with a shell indicator (\<^verbatim>\<open>npm install\<close>,
  \<^verbatim>\<open>npm create\<close>, \<^verbatim>\<open>cd\<close> and a space, or \<^verbatim>\<open>#!/bin/bash\<close>) in its first 100
  characters is stored when it has more than 5 lines and its first 5 lines are not all
  shell-like (a line that starts with \<^verbatim>\<open>#\<close>, \<^verbatim>\<open>npm\<close>, \<^verbatim>\<open>cd\<close> or \<^verbatim>\<open>mkdir\<close>),
  and is dropped otherwise; a body without an indicator there is stored.  In
  particular a body of 8 lines whose first line is \<^verbatim>\<open>#!/bin/bash\<close> and whose lines 2-5
  are not all shell-like is stored, and a body of fewer than 5 lines with
  \<^verbatim>\<open>npm install\<close> within the first 100 characters of its first line is dropped.
\<close>

theorem command_block_filter:
  "(list_ex (\<lambda>cmd. contains cmd (take 100 (match_content m)))
       [''npm install'', ''npm create'', ''cd '', ''#!/bin/bash''] \<longrightarrow>
      store_match fd m =
        (if length (split NL (match_content m)) > 5
            \<and> \<not> list_all (\<lambda>line. prefix ''#'' line \<or> prefix ''npm'' line \<or> prefix ''cd'' line
                               \<or> prefix ''mkdir'' line)
                   (take 5 (split NL (match_content m)))
         then AList.update (match_path m) (match_content m) fd else fd))
   \<and> (\<not> list_ex (\<lambda>cmd. contains cmd (take 100 (match_content m0)))
          [''npm install'', ''npm create'', ''cd '', ''#!/bin/bash''] \<longrightarrow>
      store_match fd m0 = AList.update (match_path m0) (match_content m0) fd)
   \<and> (hd (split NL (match_content m1)) = ''#!/bin/bash''
        \<and> length (split NL (match_content m1)) = 8
        \<and> \<not> list_all (\<lambda>line. prefix ''#'' line \<or> prefix ''npm'' line \<or> prefix ''cd'' line
                           \<or> prefix ''mkdir'' line)
               (take 4 (tl (split NL (match_content m1))))
      \<longrightarrow> store_match fd m1 = AList.update (match_path m1) (match_content m1) fd)
   \<and> (contains ''npm install'' (take 100 (hd (split NL (match_content m2))))
        \<and> length (split NL (match_content m2)) < 5
      \<longrightarrow> store_match fd m2 = fd)"
  unfolding shell_like_eq[symmetric] has_indicator_eq[symmetric]
proof (intro conjI impI)
  assume "has_indicator (match_content m)"
  then show "store_match fd m =
        (if length (split NL (match_content m)) > 5
            \<and> \<not> list_all shell_like (take 5 (split NL (match_content m)))
         then AList.update (match_path m) (match_content m) fd else fd)"
    using store_match_indicator[of m fd] unfolding real_file_def Let_def by blast
next
  assume "\<not> has_indicator (match_content m0)"
  then show "store_match fd m0 = AList.update (match_path m0) (match_content m0) fd"
    by (simp add: store_match_kept kept_def)
next
  assume a: "hd (split NL (match_content m1)) = ''#!/bin/bash''
        \<and> length (split NL (match_content m1)) = 8
        \<and> \<not> list_all shell_like (take 4 (tl (split NL (match_content m1))))"
  have "kept (match_content m1)"
    using a[THEN conjunct1] a[THEN conjunct2, THEN conjunct1] a[THEN conjunct2, THEN conjunct2]
    by (rule shebang_script_kept)
  then show "store_match fd m1 = AList.update (match_path m1) (match_content m1) fd"
    by (simp add: store_match_kept)
next
  assume a: "contains ''npm install'' (take 100 (hd (split NL (match_content m2))))
        \<and> length (split NL (match_content m2)) < 5"
  have "\<not> kept (match_content m2)"
    using a[THEN conjunct1] a[THEN conjunct2] by (rule short_install_discarded)
  then show "store_match fd m2 = fd" by (simp add: store_match_kept)
qed

theorem command_block_filter_witness:
  "list_ex (\<lambda>cmd. contains cmd (take 100 (match_content match_cd)))
       [''npm install'', ''npm create'', ''cd '', ''#!/bin/bash'']
   \<and> store_match [] match_cd = []
   \<and> list_ex (\<lambda>cmd. contains cmd (take 100 (match_content match_setup)))
       [''npm install'', ''npm create'', ''cd '', ''#!/bin/bash'']
   \<and> length (split NL (match_content match_setup)) = 6
   \<and> list_all (\<lambda>line. prefix ''#'' line \<or> prefix ''npm'' line \<or> prefix ''cd'' line
                    \<or> prefix ''mkdir'' line)
        (take 5 (split NL (match_content match_setup)))
   \<and> store_match [] match_setup = []
   \<and> \<not> list_ex (\<lambda>cmd. contains cmd (take 100 (match_content match_plain)))
       [''npm install'', ''npm create'', ''cd '', ''#!/bin/bash'']
   \<and> store_match [] match_plain = AList.update (match_path match_plain) (match_content match_plain) []
   \<and> hd (split NL (match_content match_bash)) = ''#!/bin/bash''
   \<and> length (split NL (match_content match_bash)) = 8
   \<and> \<not> list_all (\<lambda>line. prefix ''#'' line \<or> prefix ''npm'' line \<or> prefix ''cd'' line
                      \<or> prefix ''mkdir'' line)
          (take 4 (tl (split NL (match_content match_bash))))
   \<and> store_match [] match_bash =
        AList.update (match_path match_bash) (match_content match_bash) []
   \<and> contains ''npm install'' (take 100 (hd (split NL (match_content match_npm))))
   \<and> length (split NL (match_content match_npm)) < 5
   \<and> store_match [] match_npm = []"
proof -
  have h: "list_ex (\<lambda>cmd. contains cmd (take 100 (match_content match_cd)))
       [''npm install'', ''npm create'', ''cd '', ''#!/bin/bash'']" by code_simp
  have e: "\<not> (length (split NL (match_content match_cd)) > 5
            \<and> \<not> list_all (\<lambda>line. prefix ''#'' line \<or> prefix ''npm'' line \<or> prefix ''cd'' line
                               \<or> prefix ''mkdir'' line)
                   (take 5 (split NL (match_content match_cd))))"
    by code_simp
  have hs: "list_ex (\<lambda>cmd. contains cmd (take 100 (match_content match_setup)))
       [''npm install'', ''npm create'', ''cd '', ''#!/bin/bash'']" by code_simp
  have ls: "length (split NL (match_content match_setup)) = 6" by code_simp
  have as: "list_all (\<lambda>line. prefix ''#'' line \<or> prefix ''npm'' line \<or> prefix ''cd'' line
                    \<or> prefix ''mkdir'' line)
        (take 5 (split NL (match_content match_setup)))" by code_simp
  have es: "\<not> (length (split NL (match_content match_setup)) > 5
            \<and> \<not> list_all (\<lambda>line. prefix ''#'' line \<or> prefix ''npm'' line \<or> prefix ''cd'' line
                               \<or> prefix ''mkdir'' line)
                   (take 5 (split NL (match_content match_setup))))"
    using as by blast
  have h0: "\<not> list_ex (\<lambda>cmd. contains cmd (take 100 (match_content match_plain)))
       [''npm install'', ''npm create'', ''cd '', ''#!/bin/bash'']" by code_simp
  have h1: "hd (split NL (match_content match_bash)) = ''#!/bin/bash''
     \<and> length (split NL (match_content match_bash)) = 8
     \<and> \<not> list_all (\<lambda>line. prefix ''#'' line \<or> prefix ''npm'' line \<or> prefix ''cd'' line
                        \<or> prefix ''mkdir'' line)
            (take 4 (tl (split NL (match_content match_bash))))"
    by code_simp
  have h2: "contains ''npm install'' (take 100 (hd (split NL (match_content match_npm))))
     \<and> length (split NL (match_content match_npm)) < 5"
    by code_simp
  note rule = command_block_filter[of _ "[]"]
  have c: "store_match [] match_cd =
        (if length (split NL (match_content match_cd)) > 5
            \<and> \<not> list_all (\<lambda>line. prefix ''#'' line \<or> prefix ''npm'' line \<or> prefix ''cd'' line
                               \<or> prefix ''mkdir'' line)
                   (take 5 (split NL (match_content match_cd)))
         then AList.update (match_path match_cd) (match_content match_cd) [] else [])"
    using rule[of match_cd, THEN conjunct1] h by (rule mp)
  have c': "store_match [] match_cd = []"
    using c e by (simp only: if_False)
  have cs: "store_match [] match_setup =
        (if length (split NL (match_content match_setup)) > 5
            \<and> \<not> list_all (\<lambda>line. prefix ''#'' line \<or> prefix ''npm'' line \<or> prefix ''cd'' line
                               \<or> prefix ''mkdir'' line)
                   (take 5 (split NL (match_content match_setup)))
         then AList.update (match_path match_setup) (match_content match_setup) [] else [])"
    using rule[of match_setup, THEN conjunct1] hs by (rule mp)
  have cs': "store_match [] match_setup = []"
    using cs es by (simp only: if_False)
  have c0: "store_match [] match_plain
      = AList.update (match_path match_plain) (match_content match_plain) []"
    using rule[of _ match_plain, THEN conjunct2, THEN conjunct1] h0 by (rule mp)
  have c1: "store_match [] match_bash =
        AList.update (match_path match_bash) (match_content match_bash) []"
    using rule[of _ _ match_bash, THEN conjunct2, THEN conjunct2, THEN conjunct1] h1 by (rule mp)
  have c2: "store_match [] match_npm = []"
    using rule[of _ _ _ match_npm, THEN conjunct2, THEN conjunct2, THEN conjunct2] h2 by (rule mp)
  show ?thesis
    by (intro conjI h c' hs ls as cs' h0 c0 c1 c2 h1[THEN conjunct1]
          h1[THEN conjunct2, THEN conjunct1] h1[THEN conjunct2, THEN conjunct2]
          h2[THEN conjunct1] h2[THEN conjunct2])
qed

text \<open>
  As the specification states it, the second example fails: the filter reads only the
  first 100 characters of the body.  A body of one line with \<^verbatim>\<open>npm install\<close> behind
  100 other characters has the words in its first line and fewer than 5 lines, and is
  stored.
\<close>

theorem far_install_kept_counterexample:
  "length (hd (split NL (match_content match_far_npm))) = 112
   \<and> contains ''npm install'' (hd (split NL (match_content match_far_npm)))
   \<and> \<not> contains ''npm install'' (take 100 (match_content match_far_npm))
   \<and> length (split NL (match_content match_far_npm)) = 1
   \<and> store_match [] match_far_npm = [(''setup.md'', match_content match_far_npm)]"
  by code_simp

section \<open>Properties of the extraction loop\<close>

lemma extract_as_fold:
  "extract_files_from_markdown doc = foldl store_match [] (all_matches doc)"
  by (simp add: extract_files_from_markdown_def all_matches_def)

lemma map_of_store_match:
  "map_of (store_match fd m) p =
     (if match_path m = p \<and> kept (match_content m) then Some (match_content m)
      else map_of fd p)"
  by (simp add: store_match_kept update_conv')

lemma map_of_foldl_store_if:
  "map_of (foldl store_match fd ms) p =
     (if filter (\<lambda>m. match_path m = p \<and> kept (match_content m)) ms = [] then map_of fd p
      else Some (match_content
             (last (filter (\<lambda>m. match_path m = p \<and> kept (match_content m)) ms))))"
  by (induction ms rule: rev_induct) (simp_all add: map_of_store_match)

lemma map_of_foldl_store:
  "map_of (foldl store_match [] ms) p =
     (case filter (\<lambda>m. match_path m = p \<and> kept (match_content m)) ms of
        [] \<Rightarrow> None
      | k # ks \<Rightarrow> Some (match_content (last (k # ks))))"
proof -
  define F where "F = filter (\<lambda>m. match_path m = p \<and> kept (match_content m)) ms"
  have "map_of (foldl store_match [] ms) p =
      (if F = [] then None else Some (match_content (last F)))"
    unfolding F_def map_of_foldl_store_if by simp
  then have "map_of (foldl store_match [] ms) p =
      (case F of [] \<Rightarrow> None | k # ks \<Rightarrow> Some (match_content (last (k # ks))))"
    by (cases F) simp_all
  then show ?thesis unfolding F_def .
qed

lemma foldl_store_discarded:
  "list_all (\<lambda>m. \<not> kept (match_content m)) ms \<Longrightarrow> foldl store_match fd ms = fd"
  by (induction ms arbitrary: fd) (simp_all add: store_match_kept)

text \<open>
  C1, as the code has it.  The three strategies run in the order emphasized filename,
  heading, inline code span, and the matches of each are folded into the result in the
  order found.  For every path, the body in the final mapping is that of the last
  match for the path, in this order, that the command-block filter keeps; a path none
  of whose matches is kept is absent.
\<close>

theorem strategies_in_order_last_kept_wins:
  "extract_files_from_markdown doc =
     foldl store_match []
       (findall pattern1 doc @ findall pattern2 doc @ findall pattern3 doc)
   \<and> map_of (extract_files_from_markdown doc) p =
       (case filter (\<lambda>m. match_path m = p \<and> kept (match_content m))
               (findall pattern1 doc @ findall pattern2 doc @ findall pattern3 doc) of
          [] \<Rightarrow> None
        | k # ks \<Rightarrow> Some (match_content (last (k # ks))))"
  unfolding extract_as_fold all_matches_def
  by (rule conjI[OF refl map_of_foldl_store])

text \<open>The heading strategy runs after the emphasized one: with two ordinary bodies
  for one path, the body under the heading is the one in the result.\<close>

theorem strategies_in_order_witness:
  "findall pattern1 doc_both = [[''a.py'', ''py'', ''old'' @ [NL]]]
   \<and> findall pattern2 doc_both = [[''a.py'', ''py'', ''new'' @ [NL]]]
   \<and> map_of (extract_files_from_markdown doc_both) ''a.py'' = Some ''new''"
proof -
  have m: "findall pattern1 doc_both = [[''a.py'', ''py'', ''old'' @ [NL]]]
     \<and> findall pattern2 doc_both = [[''a.py'', ''py'', ''new'' @ [NL]]]"
    by code_simp
  have v: "(case filter (\<lambda>m. match_path m = ''a.py'' \<and> kept (match_content m))
               (findall pattern1 doc_both @ findall pattern2 doc_both
                 @ findall pattern3 doc_both) of
          [] \<Rightarrow> None
        | k # ks \<Rightarrow> Some (match_content (last (k # ks)))) = Some ''new''"
    by code_simp
  have r: "map_of (extract_files_from_markdown doc_both) ''a.py'' = Some ''new''"
    using strategies_in_order_last_kept_wins[of doc_both "''a.py''", THEN conjunct2] v
    by (rule trans)
  show ?thesis by (intro conjI m[THEN conjunct1] m[THEN conjunct2] r)
qed

text \<open>
  As the specification states it, the property fails: a later match that the filter
  discards does not replace the body stored by an earlier one.  Here both strategies
  match \<^verbatim>\<open>a.sh\<close>; the heading's
  body, processed later, is not the one in the final mapping.
\<close>

theorem later_match_not_stored_counterexample:
  "findall pattern1 doc_discard = [[''a.sh'', ''sh'', ''echo hi'' @ [NL]]]
   \<and> findall pattern2 doc_discard = [[''a.sh'', ''sh'', ''npm install'' @ [NL]]]
   \<and> findall pattern3 doc_discard = []
   \<and> match_content [''a.sh'', ''sh'', ''npm install'' @ [NL]] = ''npm install''
   \<and> extract_files_from_markdown doc_discard = [(''a.sh'', ''echo hi'')]
   \<and> map_of (extract_files_from_markdown doc_discard) ''a.sh'' \<noteq> Some ''npm install''"
  by code_simp

text \<open>
  C10.  A match whose body the filter discards leaves the mapping as it was: no entry
  is added, replaced or removed.  So the entries stored by an earlier strategy or an
  earlier match survive any number of later discarded matches; if every match of the
  heading and inline-code strategies is discarded, the result is the one the
  emphasized strategy built.
\<close>

theorem discarded_match_changes_nothing:
  "(\<not> kept (match_content m) \<longrightarrow> store_match fd m = fd)
   \<and> (list_all (\<lambda>m. \<not> kept (match_content m)) ms \<longrightarrow> foldl store_match fd ms = fd)
   \<and> (list_all (\<lambda>m. \<not> kept (match_content m)) (findall pattern2 doc @ findall pattern3 doc)
        \<longrightarrow> extract_files_from_markdown doc = foldl store_match [] (findall pattern1 doc))"
  by (simp add: store_match_kept foldl_store_discarded extract_as_fold all_matches_def)

theorem discarded_match_witness:
  "\<not> kept (match_content match_npm)
   \<and> store_match [(''setup.md'', ''notes'')] match_npm = [(''setup.md'', ''notes'')]
   \<and> list_all (\<lambda>m. \<not> kept (match_content m)) [match_npm, match_cd]
   \<and> foldl store_match [(''setup.md'', ''notes'')] [match_npm, match_cd]
       = [(''setup.md'', ''notes'')]
   \<and> list_all (\<lambda>m. \<not> kept (match_content m))
        (findall pattern2 doc_discard @ findall pattern3 doc_discard)
   \<and> extract_files_from_markdown doc_discard
       = foldl store_match [] (findall pattern1 doc_discard)"
proof -
  have h1: "\<not> kept (match_content match_npm)" by code_simp
  have h2: "list_all (\<lambda>m. \<not> kept (match_content m)) [match_npm, match_cd]" by code_simp
  have h3: "list_all (\<lambda>m. \<not> kept (match_content m))
        (findall pattern2 doc_discard @ findall pattern3 doc_discard)" by code_simp
  note rule = discarded_match_changes_nothing
  have c1: "store_match [(''setup.md'', ''notes'')] match_npm = [(''setup.md'', ''notes'')]"
    using rule[of match_npm "[(''setup.md'', ''notes'')]", THEN conjunct1] h1 by (rule mp)
  have c2: "foldl store_match [(''setup.md'', ''notes'')] [match_npm, match_cd]
       = [(''setup.md'', ''notes'')]"
    using rule[of _ _ "[match_npm, match_cd]", THEN conjunct2, THEN conjunct1] h2 by (rule mp)
  have c3: "extract_files_from_markdown doc_discard
       = foldl store_match [] (findall pattern1 doc_discard)"
    using rule[of _ _ _ doc_discard, THEN conjunct2, THEN conjunct2] h3 by (rule mp)
  show ?thesis by (intro conjI h1 h2 h3 c1 c2 c3)
qed

section \<open>Extraction on given documents\<close>

text \<open>
  C4.  For a document with the emphasized filename \<^verbatim>\<open>**app.py**\<close> immediately followed
  by a fenced block whose body is \<^verbatim>\<open>print("hi")\<close>, extraction returns exactly the
  mapping from \<^verbatim>\<open>app.py\<close> to that body; with the fence on the next line and a
  language tag, and with the fence directly after the filename.
\<close>

theorem extract_app_py:
  "extract_files_from_markdown doc_app = [(''app.py'', ''print('' @ [DQ] @ ''hi'' @ [DQ] @ '')'')]
   \<and> extract_files_from_markdown doc_app_bare
       = [(''app.py'', ''print('' @ [DQ] @ ''hi'' @ [DQ] @ '')'')]"
  by code_simp

section \<open>Paths and their text\<close>

lemma wf_path_iff:
  "wf_path p \<longleftrightarrow> anchor p \<in> {[], ''/'', ''//''}
     \<and> (\<forall>x \<in> set (parts p). x \<noteq> [] \<and> x \<noteq> ''.'' \<and> CHR ''/'' \<notin> set x)"
  by (simp add: wf_path_def list_all_iff)

lemma split_no_sep: "c \<notin> set x \<Longrightarrow> split c x = [x]"
  by (induction x) auto

lemma split_sep: "c \<notin> set x \<Longrightarrow> split c (x @ c # rest) = x # split c rest"
  by (induction x) auto

lemma split_parts_no_sep: "\<forall>x \<in> set (split c s). c \<notin> set x"
  by (induction s) (auto split: list.splits)

lemma split_join:
  "ps \<noteq> [] \<Longrightarrow> \<forall>x \<in> set ps. c \<notin> set x \<Longrightarrow> split c (join_with [c] ps) = ps"
proof (induction "[c]" ps rule: join_with.induct)
  case 1
  then show ?case by simp
next
  case (2 x)
  then show ?case by (simp add: split_no_sep)
next
  case (3 x v va)
  then show ?case by (simp add: split_sep)
qed

lemma anchor_of_cases: "anchor_of s \<in> {[], ''/'', ''//''}"
  by (simp add: anchor_of_def Let_def)

lemma wf_parse_path: "wf_path (parse_path s)"
  using split_parts_no_sep[of "CHR ''/''" s]
  by (auto simp: wf_path_iff parse_path_def anchor_of_def Let_def)

lemma wf_parent: "wf_path p \<Longrightarrow> wf_path (parent p)"
  by (auto simp: wf_path_iff parent_def dest: in_set_butlastD)

lemma wf_joinpath: "wf_path b \<Longrightarrow> wf_path (joinpath b k)"
  using wf_parse_path[of k]
  by (auto simp: wf_path_iff joinpath_def Let_def)


lemma join_with_head:
  assumes "ps \<noteq> []" "\<forall>x \<in> set ps. x \<noteq> [] \<and> c \<notin> set x"
  shows "\<exists>y ys. join_with [c] ps = y # ys \<and> y \<noteq> c"
proof -
  from assms(1) obtain p ps' where ps: "ps = p # ps'" by (cases ps) auto
  with assms(2) obtain y ys where p: "p = y # ys" "y \<noteq> c" by (cases p) auto
  show ?thesis using ps p by (cases ps') auto
qed

lemma takeWhile_join:
  assumes "\<forall>x \<in> set ps. x \<noteq> [] \<and> c \<notin> set x"
  shows "takeWhile (\<lambda>x. x = c) (join_with [c] ps) = []"
proof (cases "ps = []")
  case True
  then show ?thesis by simp
next
  case False
  from join_with_head[OF False assms] obtain y ys
    where "join_with [c] ps = y # ys" "y \<noteq> c" by blast
  then show ?thesis by simp
qed

lemma filter_split_join:
  assumes "\<forall>x \<in> set ps. x \<noteq> [] \<and> x \<noteq> ''.'' \<and> c \<notin> set x"
  shows "filter (\<lambda>p. p \<noteq> [] \<and> p \<noteq> ''.'') (split c (join_with [c] ps)) = ps"
proof (cases "ps = []")
  case True
  then show ?thesis by simp
next
  case False
  with assms have "split c (join_with [c] ps) = ps" by (intro split_join) auto
  moreover have "filter (\<lambda>p. p \<noteq> [] \<and> p \<noteq> ''.'') ps = ps"
    using assms by (intro filter_True) auto
  ultimately show ?thesis by simp
qed

lemma parse_path_str:
  assumes "wf_path p"
  shows "parse_path (path_str p) = p"
proof -
  obtain a ps where p: "p = Path a ps" by (cases p)
  from assms p have ps: "\<forall>x \<in> set ps. x \<noteq> [] \<and> x \<noteq> ''.'' \<and> CHR ''/'' \<notin> set x"
    and a: "a = [] \<or> a = ''/'' \<or> a = ''//''"
    by (auto simp: wf_path_iff)
  then have ps': "\<forall>x \<in> set ps. x \<noteq> [] \<and> CHR ''/'' \<notin> set x" by blast
  note tw = takeWhile_join[OF ps']
  note fs = filter_split_join[OF ps]
  from a show ?thesis
  proof (elim disjE)
    assume "a = []"
    then show ?thesis
      using tw fs p by (cases "ps = []") (simp_all add: parse_path_def path_str_def anchor_of_def)
  next
    assume "a = ''/''"
    then show ?thesis
      using tw fs p by (simp add: parse_path_def path_str_def anchor_of_def)
  next
    assume "a = ''//''"
    then show ?thesis
      using tw fs p by (simp add: parse_path_def path_str_def anchor_of_def)
  qed
qed

lemma path_str_inj: "wf_path p \<Longrightarrow> wf_path q \<Longrightarrow> path_str p = path_str q \<Longrightarrow> p = q"
  by (metis parse_path_str)


lemma ensure_parent_skip:
  "parent (joinpath b k) = b \<or> path_str (parent (joinpath b k)) \<in> dirs_created s \<Longrightarrow>
   ensure_parent b v s k = Inr s"
  unfolding ensure_parent_def Let_def by (rule if_not_P) blast

lemma ensure_parent_make:
  "parent (joinpath b k) \<noteq> b \<Longrightarrow> path_str (parent (joinpath b k)) \<notin> dirs_created s \<Longrightarrow>
   ensure_parent b v s k =
     (case mkdir_p (fs s) (parent (joinpath b k)) of
        Inl e \<Rightarrow> Inl e
      | Inr c \<Rightarrow>
          (if v
           then (case relative_to (parent (joinpath b k)) b of
                   Inl e \<Rightarrow> Inl e
                 | Inr rel \<Rightarrow>
                     Inr (s\<lparr>fs := c,
                            dirs_created := insert (path_str (parent (joinpath b k)))
                                              (dirs_created s),
                            printed := printed s @ [Created_directory rel]\<rparr>))
           else Inr (s\<lparr>fs := c,
                       dirs_created := insert (path_str (parent (joinpath b k)))
                                         (dirs_created s)\<rparr>)))"
  unfolding ensure_parent_def Let_def
  by (subst if_P, blast) (simp cong: sum.case_cong if_cong)

lemma ensure_parent_cases:
  assumes "ensure_parent b v s k = Inr s1"
  obtains (skip) "parent (joinpath b k) = b \<or> path_str (parent (joinpath b k)) \<in> dirs_created s"
      "s1 = s"
  | (made) c where "parent (joinpath b k) \<noteq> b"
      "path_str (parent (joinpath b k)) \<notin> dirs_created s"
      "mkdir_p (fs s) (parent (joinpath b k)) = Inr c"
      "fs s1 = c"
      "dirs_created s1 = insert (path_str (parent (joinpath b k))) (dirs_created s)"
      "files_created s1 = files_created s"
      "v \<longrightarrow> (\<exists>rel. relative_to (parent (joinpath b k)) b = Inr rel
              \<and> printed s1 = printed s @ [Created_directory rel])"
      "\<not> v \<longrightarrow> printed s1 = printed s"
proof (cases "parent (joinpath b k) = b \<or> path_str (parent (joinpath b k)) \<in> dirs_created s")
  case True
  with assms ensure_parent_skip[OF True, of v] have "s1 = s" by simp
  with True show ?thesis by (rule skip)
next
  case False
  then have n1: "parent (joinpath b k) \<noteq> b"
    and n2: "path_str (parent (joinpath b k)) \<notin> dirs_created s" by simp_all
  note eq = assms[unfolded ensure_parent_make[OF n1 n2]]
  from eq obtain c where c: "mkdir_p (fs s) (parent (joinpath b k)) = Inr c"
    by (cases "mkdir_p (fs s) (parent (joinpath b k))") simp_all
  show ?thesis
  proof (cases v)
    case True
    with eq c obtain rel where rel: "relative_to (parent (joinpath b k)) b = Inr rel"
      by (cases "relative_to (parent (joinpath b k)) b") simp_all
    with eq c True have "s1 = s\<lparr>fs := c,
        dirs_created := insert (path_str (parent (joinpath b k))) (dirs_created s),
        printed := printed s @ [Created_directory rel]\<rparr>" by simp
    with n1 n2 c rel True show ?thesis by (intro made[of c]) simp_all
  next
    case False
    with eq c have "s1 = s\<lparr>fs := c,
        dirs_created := insert (path_str (parent (joinpath b k))) (dirs_created s)\<rparr>" by simp
    with n1 n2 c False show ?thesis by (intro made[of c]) simp_all
  qed
qed

lemma ensure_parent_created:
  assumes "ensure_parent b v st k = Inr st'"
  shows "dirs_created st' =
      (if parent (joinpath b k) \<noteq> b
       then insert (path_str (parent (joinpath b k))) (dirs_created st)
       else dirs_created st)"
    and "files_created st' = files_created st"
  using assms
  by (auto simp: ensure_parent_def Let_def split: if_splits sum.splits)

lemma write_entry_created [simp]:
  "dirs_created (write_entry b v st e) = dirs_created st"
  by (cases e) (simp add: write_entry_def split: sum.splits)

lemma parent_dirs_insert:
  "parent_dirs b (insert k ks) =
     (if parent (joinpath b k) \<noteq> b then insert (parent (joinpath b k)) (parent_dirs b ks)
      else parent_dirs b ks)"
  by (auto simp: parent_dirs_def)

lemma process_entries_created:
  "process_entries b v st es = Inr st' \<Longrightarrow>
   dirs_created st' = dirs_created st \<union> path_str ` parent_dirs b (fst ` set es)"
proof (induction es arbitrary: st)
  case Nil
  then show ?case by (simp add: parent_dirs_def)
next
  case (Cons e es)
  from Cons.prems obtain st1 where
    ep: "ensure_parent b v st (fst e) = Inr st1" and
    rest: "process_entries b v (write_entry b v st1 e) es = Inr st'"
    by (auto split: sum.splits)
  from Cons.IH[OF rest] ensure_parent_created(1)[OF ep]
  show ?case by (auto simp: parent_dirs_insert)
qed

lemma wf_parent_dirs: "wf_path b \<Longrightarrow> p \<in> parent_dirs b ks \<Longrightarrow> wf_path p"
  by (auto simp: parent_dirs_def intro: wf_parent wf_joinpath)

lemma card_parent_strs:
  assumes "wf_path b"
  shows "card (path_str ` parent_dirs b ks) = card (parent_dirs b ks)"
proof (rule card_image)
  show "inj_on path_str (parent_dirs b ks)"
  proof (rule inj_onI)
    fix p q
    assume "p \<in> parent_dirs b ks" "q \<in> parent_dirs b ks" "path_str p = path_str q"
    with assms show "p = q"
      using wf_parent_dirs[of b p ks] wf_parent_dirs[of b q ks] by (blast intro: path_str_inj)
  qed
qed


lemma ensure_parent_records:
  assumes "ensure_parent b True st k = Inr st'" "records_match st"
  shows "records_match st'"
  using assms
  by (auto simp: ensure_parent_def Let_def records_match_def split: if_splits sum.splits)

lemma write_entry_records:
  "records_match st \<Longrightarrow> records_match (write_entry b v st e)"
  by (cases e) (simp add: write_entry_def records_match_def split: sum.splits)

lemma process_entries_records:
  "process_entries b True st es = Inr st' \<Longrightarrow> records_match st \<Longrightarrow> records_match st'"
proof (induction es arbitrary: st)
  case Nil
  then show ?case by simp
next
  case (Cons e es)
  from Cons.prems(1) obtain st1 where
    ep: "ensure_parent b True st (fst e) = Inr st1" and
    rest: "process_entries b True (write_entry b True st1 e) es = Inr st'"
    by (auto split: sum.splits)
  from ensure_parent_records[OF ep Cons.prems(2)]
  have "records_match (write_entry b True st1 e)" by (rule write_entry_records)
  with rest show ?case by (rule Cons.IH)
qed

lemma ensure_parent_accounted:
  "ensure_parent b v st k = Inr st' \<Longrightarrow> accounted st' = accounted st"
  by (auto simp: ensure_parent_def Let_def accounted_def split: if_splits sum.splits)

lemma write_entry_accounted:
  "accounted (write_entry b v st e) = Suc (accounted st)"
  by (cases e) (simp add: write_entry_def accounted_def split: sum.splits)

lemma process_entries_accounted:
  "process_entries b v st es = Inr st' \<Longrightarrow> accounted st' = accounted st + length es"
proof (induction es arbitrary: st)
  case Nil
  then show ?case by simp
next
  case (Cons e es)
  from Cons.prems obtain st1 where
    ep: "ensure_parent b v st (fst e) = Inr st1" and
    rest: "process_entries b v (write_entry b v st1 e) es = Inr st'"
    by (auto split: sum.splits)
  from Cons.IH[OF rest] ensure_parent_accounted[OF ep]
  show ?case by (simp add: write_entry_accounted)
qed

lemma created_dirs_append [simp]: "created_dirs (a @ b) = created_dirs a @ created_dirs b"
  by (simp add: created_dirs_def)

lemma created_dirs_single [simp]:
  "created_dirs [] = []"
  "created_dirs [Created_directory p] = [p]"
  "created_dirs [Created_file k] = []"
  "created_dirs [Error_creating k e] = []"
  by (simp_all add: created_dirs_def)

lemma dir_records_list:
  "filter is_dir_record ms = map Created_directory (created_dirs ms)"
proof (induction ms)
  case Nil
  show ?case by simp
next
  case (Cons m ms)
  have "created_dirs (m # ms) = created_dirs [m] @ created_dirs ms"
    using created_dirs_append[of "[m]" ms] by simp
  with Cons show ?case by (cases m) simp_all
qed

lemma below_relative: "relative_to q b = Inr rel \<Longrightarrow> below b rel = q"
  by (cases q) (auto simp: relative_to_def below_def prefix_def split: if_splits)

lemma ensure_parent_dir_records:
  assumes ep: "ensure_parent b True st k = Inr st'" and wb: "wf_path b"
    and ok: "dir_records_ok b st"
  shows "dir_records_ok b st'"
  using ep
proof (cases rule: ensure_parent_cases)
  case skip
  with ok show ?thesis by simp
next
  case (made c)
  let ?q = "parent (joinpath b k)"
  from made(7) obtain rel where rel: "relative_to ?q b = Inr rel"
    and pr: "printed st' = printed st @ [Created_directory rel]" by blast
  from below_relative[OF rel] have bq: "below b rel = ?q" .
  have wq: "wf_path ?q" using wb by (intro wf_parent wf_joinpath)
  from ok made(2) made(5) rel wq show ?thesis
    unfolding dir_records_ok_def pr by (auto simp: bq)
qed

lemma write_entry_dir_records:
  "dir_records_ok b st \<Longrightarrow> dir_records_ok b (write_entry b' v st e)"
  by (cases e) (auto simp: write_entry_def dir_records_ok_def split: sum.splits)

lemma process_entries_dir_records:
  "process_entries b True st es = Inr st' \<Longrightarrow> wf_path b \<Longrightarrow> dir_records_ok b st \<Longrightarrow>
   dir_records_ok b st'"
proof (induction es arbitrary: st)
  case Nil
  then show ?case by simp
next
  case (Cons e es)
  from Cons.prems(1) obtain st1 where
    ep: "ensure_parent b True st (fst e) = Inr st1" and
    rest: "process_entries b True (write_entry b True st1 e) es = Inr st'"
    by (auto split: sum.splits)
  from ensure_parent_dir_records[OF ep Cons.prems(2,3)]
  have "dir_records_ok b (write_entry b True st1 e)" by (rule write_entry_dir_records)
  with rest Cons.prems(2) show ?case by (intro Cons.IH)
qed

lemma dir_records_exact:
  assumes ok: "dir_records_ok b st" and wb: "wf_path b"
    and dc: "dirs_created st = path_str ` parent_dirs b ks"
  shows "distinct (filter is_dir_record (printed st))"
    and "set (filter is_dir_record (printed st))
      = {Created_directory rel |rel q. q \<in> parent_dirs b ks \<and> relative_to q b = Inr rel}"
proof -
  let ?recs = "created_dirs (printed st)"
  from ok have d: "distinct (map (\<lambda>rel. path_str (below b rel)) ?recs)"
    and s: "(\<lambda>rel. path_str (below b rel)) ` set ?recs = dirs_created st"
    and r: "\<And>rel. rel \<in> set ?recs \<Longrightarrow>
        wf_path (below b rel) \<and> relative_to (below b rel) b = Inr rel"
    by (auto simp: dir_records_ok_def list_all_iff)
  from d have "distinct ?recs" by (simp add: distinct_map)
  then show "distinct (filter is_dir_record (printed st))"
    unfolding dir_records_list by (simp add: distinct_map inj_on_def)
  have "set ?recs = {rel. \<exists>q \<in> parent_dirs b ks. relative_to q b = Inr rel}"
  proof (intro set_eqI iffI)
    fix rel assume a: "rel \<in> set ?recs"
    then have "path_str (below b rel) \<in> path_str ` parent_dirs b ks"
      using s dc by blast
    then obtain q where q: "q \<in> parent_dirs b ks" "path_str (below b rel) = path_str q"
      by blast
    from q(1) have "wf_path q" by (rule wf_parent_dirs[OF wb])
    with r[OF a] q(2) have "below b rel = q" by (intro path_str_inj) simp_all
    with r[OF a] q(1) show "rel \<in> {rel. \<exists>q \<in> parent_dirs b ks. relative_to q b = Inr rel}"
      by auto
  next
    fix rel assume "rel \<in> {rel. \<exists>q \<in> parent_dirs b ks. relative_to q b = Inr rel}"
    then obtain q where q: "q \<in> parent_dirs b ks" "relative_to q b = Inr rel" by blast
    from q(1) have "path_str q \<in> (\<lambda>rel. path_str (below b rel)) ` set ?recs"
      unfolding s dc by blast
    then obtain rel' where r': "rel' \<in> set ?recs" "path_str q = path_str (below b rel')"
      by blast
    from q(1) have "wf_path q" by (rule wf_parent_dirs[OF wb])
    with r[OF r'(1)] r'(2) have "below b rel' = q" by (intro path_str_inj[symmetric]) simp_all
    with r[OF r'(1)] q(2) have "rel' = rel" by simp
    with r'(1) show "rel \<in> set ?recs" by simp
  qed
  then show "set (filter is_dir_record (printed st))
      = {Created_directory rel |rel q. q \<in> parent_dirs b ks \<and> relative_to q b = Inr rel}"
    unfolding dir_records_list by auto
qed

lemma create_project_structure_run:
  assumes "create_project_structure fd base_dir v fs0 = Inr out"
  obtains fs1 where "mkdir_p fs0 (parse_path base_dir) = Inr fs1"
    and "process_entries (parse_path base_dir) v
           \<lparr>fs = fs1, dirs_created = {}, files_created = [], printed = []\<rparr> (sort fd)
         = Inr (final out)"
    and "dirs_count out = card (dirs_created (final out))"
    and "files_count out = length (files_created (final out))"
  using assms
  by (auto simp: create_project_structure_def Let_def split: sum.splits)

section \<open>Properties of the Materializer\<close>

lemma write_entry_failure:
  "open_write (fs st) (joinpath b k) c = Inl e \<Longrightarrow>
   write_entry b v st (k, c) = st\<lparr>printed := printed st @ [Error_creating k e]\<rparr>"
  by (simp add: write_entry_def)

lemma create_project_structure_accounted:
  assumes "create_project_structure fd base_dir v fs0 = Inr out"
  shows "files_count out + length (filter is_error_record (printed (final out))) = length fd"
proof -
  from assms obtain fs1 where
    run: "process_entries (parse_path base_dir) v
           \<lparr>fs = fs1, dirs_created = {}, files_created = [], printed = []\<rparr> (sort fd)
         = Inr (final out)"
    and fc: "files_count out = length (files_created (final out))"
    by (rule create_project_structure_run)
  from process_entries_accounted[OF run] fc show ?thesis
    by (simp add: accounted_def)
qed

lemma parent_failure_raises:
  assumes "parent (joinpath b k) \<noteq> b" "path_str (parent (joinpath b k)) \<notin> dirs_created st0"
    and "mkdir_p (fs st0) (parent (joinpath b k)) = Inl e"
  shows "ensure_parent b v st0 k = Inl e"
  using assms(3) by (simp add: ensure_parent_make[OF assms(1,2)])

lemma uncaught_aborts:
  "ensure_parent b v st0 k = Inl e \<Longrightarrow> process_entries b v st0 ((k, c) # es) = Inl e"
  by simp

text \<open>
  C6, as the code has it.  A failure of the step that opens and writes an entry's
  file is caught: the entry's step still yields a state, with one error record naming
  the entry and the error, and with the list of written files unchanged; the loop goes
  on with the remaining entries from that state; and over a whole run that returns,
  every entry is either counted as written or reported as failed, never both.  A
  failure to create the entry's parent directory is not caught: the first half of the
  loop body raises, and an exception raised there ends the run with the remaining
  entries not processed.
\<close>

theorem write_failure_is_caught:
  "(open_write (fs st) (joinpath b k) c = Inl e \<longrightarrow>
      write_entry b v st (k, c) = st\<lparr>printed := printed st @ [Error_creating k e]\<rparr>
      \<and> files_created (write_entry b v st (k, c)) = files_created st)
   \<and> (ensure_parent b v st0 k = Inr st \<and> open_write (fs st) (joinpath b k) c = Inl e \<longrightarrow>
      process_entries b v st0 ((k, c) # es)
        = process_entries b v (st\<lparr>printed := printed st @ [Error_creating k e]\<rparr>) es)
   \<and> (parent (joinpath b k) \<noteq> b \<and> path_str (parent (joinpath b k)) \<notin> dirs_created st0
        \<and> mkdir_p (fs st0) (parent (joinpath b k)) = Inl e \<longrightarrow>
      ensure_parent b v st0 k = Inl e)
   \<and> (ensure_parent b v st0 k = Inl e \<longrightarrow> process_entries b v st0 ((k, c) # es) = Inl e)
   \<and> (create_project_structure fd base_dir v fs0 = Inr out \<longrightarrow>
      files_count out + length (filter is_error_record (printed (final out))) = length fd)"
proof (intro conjI impI)
  assume "open_write (fs st) (joinpath b k) c = Inl e"
  then show "write_entry b v st (k, c) = st\<lparr>printed := printed st @ [Error_creating k e]\<rparr>"
    by (rule write_entry_failure)
next
  assume "open_write (fs st) (joinpath b k) c = Inl e"
  then show "files_created (write_entry b v st (k, c)) = files_created st"
    by (simp add: write_entry_failure)
next
  assume "ensure_parent b v st0 k = Inr st \<and> open_write (fs st) (joinpath b k) c = Inl e"
  then show "process_entries b v st0 ((k, c) # es)
        = process_entries b v (st\<lparr>printed := printed st @ [Error_creating k e]\<rparr>) es"
    by (simp add: write_entry_failure)
next
  assume a: "parent (joinpath b k) \<noteq> b \<and> path_str (parent (joinpath b k)) \<notin> dirs_created st0
        \<and> mkdir_p (fs st0) (parent (joinpath b k)) = Inl e"
  show "ensure_parent b v st0 k = Inl e"
    using a[THEN conjunct1] a[THEN conjunct2, THEN conjunct1] a[THEN conjunct2, THEN conjunct2]
    by (rule parent_failure_raises)
next
  assume "ensure_parent b v st0 k = Inl e"
  then show "process_entries b v st0 ((k, c) # es) = Inl e" by (rule uncaught_aborts)
next
  assume "create_project_structure fd base_dir v fs0 = Inr out"
  then show "files_count out + length (filter is_error_record (printed (final out))) = length fd"
    by (rule create_project_structure_accounted)
qed

theorem write_failure_witness:
  "open_write (fs locked_start) (joinpath (Path [] [''out'']) ''a.txt'') ''x''
     = Inl PermissionError
   \<and> write_entry (Path [] [''out'']) True locked_start (''a.txt'', ''x'')
       = locked_start\<lparr>printed := printed locked_start @ [Error_creating ''a.txt'' PermissionError]\<rparr>
   \<and> files_created (write_entry (Path [] [''out'']) True locked_start (''a.txt'', ''x'')) = []
   \<and> ensure_parent (Path [] [''out'']) True locked_start ''a.txt'' = Inr locked_start
   \<and> process_entries (Path [] [''out'']) True locked_start [(''a.txt'', ''x''), (''b.txt'', ''y'')]
       = process_entries (Path [] [''out'']) True
           (locked_start\<lparr>printed := printed locked_start @ [Error_creating ''a.txt'' PermissionError]\<rparr>)
           [(''b.txt'', ''y'')]
   \<and> parent (joinpath (Path [] [''out'']) ''a/x.txt'') \<noteq> Path [] [''out'']
   \<and> path_str (parent (joinpath (Path [] [''out'']) ''a/x.txt'')) \<notin> dirs_created blocked_start
   \<and> mkdir_p (fs blocked_start) (parent (joinpath (Path [] [''out'']) ''a/x.txt''))
       = Inl FileExistsError
   \<and> ensure_parent (Path [] [''out'']) True blocked_start ''a/x.txt'' = Inl FileExistsError
   \<and> process_entries (Path [] [''out'']) True blocked_start blocked_files = Inl FileExistsError
   \<and> (\<exists>out. create_project_structure two_top_files ''out'' True locked_fs = Inr out
         \<and> files_count out + length (filter is_error_record (printed (final out)))
             = length two_top_files
         \<and> files_count out = 1
         \<and> printed (final out)
             = [Error_creating ''a.txt'' PermissionError, Created_file ''b.txt''])"
proof -
  note rule = write_failure_is_caught
  have "(case open_write (fs locked_start) (joinpath (Path [] [''out'']) ''a.txt'') ''x'' of
       Inl e \<Rightarrow> e = PermissionError | Inr f \<Rightarrow> False)"
    by code_simp
  then have h1: "open_write (fs locked_start) (joinpath (Path [] [''out'']) ''a.txt'') ''x''
     = Inl PermissionError"
    by (cases "open_write (fs locked_start) (joinpath (Path [] [''out'']) ''a.txt'') ''x''")
       simp_all
  have h2: "ensure_parent (Path [] [''out'']) True locked_start ''a.txt'' = Inr locked_start"
    by (simp add: ensure_parent_def joinpath_def parse_path_def anchor_of_def parent_def)
  have c1: "write_entry (Path [] [''out'']) True locked_start (''a.txt'', ''x'')
       = locked_start\<lparr>printed := printed locked_start @ [Error_creating ''a.txt'' PermissionError]\<rparr>
      \<and> files_created (write_entry (Path [] [''out'']) True locked_start (''a.txt'', ''x''))
       = files_created locked_start"
    using rule[THEN conjunct1] h1 by (rule mp)
  have fc: "files_created locked_start = []" by (simp add: locked_start_def)
  have c2: "process_entries (Path [] [''out'']) True locked_start [(''a.txt'', ''x''), (''b.txt'', ''y'')]
       = process_entries (Path [] [''out'']) True
           (locked_start\<lparr>printed := printed locked_start @ [Error_creating ''a.txt'' PermissionError]\<rparr>)
           [(''b.txt'', ''y'')]"
    using rule[THEN conjunct2, THEN conjunct1] conjI[OF h2 h1] by (rule mp)
  have p1: "parent (joinpath (Path [] [''out'']) ''a/x.txt'') \<noteq> Path [] [''out'']"
    by code_simp
  have p2: "path_str (parent (joinpath (Path [] [''out'']) ''a/x.txt''))
      \<notin> dirs_created blocked_start"
    by (simp add: blocked_start_def)
  have "(case mkdir_p (fs blocked_start) (parent (joinpath (Path [] [''out'']) ''a/x.txt'')) of
       Inl e \<Rightarrow> e = FileExistsError | Inr f \<Rightarrow> False)"
    by code_simp
  then have p3: "mkdir_p (fs blocked_start) (parent (joinpath (Path [] [''out'']) ''a/x.txt''))
       = Inl FileExistsError"
    by (cases "mkdir_p (fs blocked_start) (parent (joinpath (Path [] [''out'']) ''a/x.txt''))")
       simp_all
  have p4: "ensure_parent (Path [] [''out'']) True blocked_start ''a/x.txt''
      = Inl FileExistsError"
    using rule[THEN conjunct2, THEN conjunct2, THEN conjunct1] conjI[OF p1 conjI[OF p2 p3]]
    by (rule mp)
  have "process_entries (Path [] [''out'']) True blocked_start
          ((''a/x.txt'', ''1'') # [(''b.txt'', ''2'')]) = Inl FileExistsError"
    using rule[THEN conjunct2, THEN conjunct2, THEN conjunct2, THEN conjunct1] p4
    by (rule mp)
  then have c4: "process_entries (Path [] [''out'']) True blocked_start blocked_files
      = Inl FileExistsError"
    by (simp add: blocked_files_def)
  have ev: "(case create_project_structure two_top_files ''out'' True locked_fs of
       Inl e \<Rightarrow> False
     | Inr out \<Rightarrow> files_count out = 1
         \<and> printed (final out)
             = [Error_creating ''a.txt'' PermissionError, Created_file ''b.txt''])"
    by code_simp
  then obtain out where o: "create_project_structure two_top_files ''out'' True locked_fs = Inr out"
    and o1: "files_count out = 1"
    and o2: "printed (final out) = [Error_creating ''a.txt'' PermissionError, Created_file ''b.txt'']"
    by (cases "create_project_structure two_top_files ''out'' True locked_fs") simp_all
  have c3: "files_count out + length (filter is_error_record (printed (final out)))
             = length two_top_files"
    using rule[THEN conjunct2, THEN conjunct2, THEN conjunct2, THEN conjunct2] o by (rule mp)
  from o c3 o1 o2 have ex: "\<exists>out. create_project_structure two_top_files ''out'' True locked_fs = Inr out
         \<and> files_count out + length (filter is_error_record (printed (final out)))
             = length two_top_files
         \<and> files_count out = 1
         \<and> printed (final out)
             = [Error_creating ''a.txt'' PermissionError, Created_file ''b.txt'']"
    by blast
  have c1b: "files_created (write_entry (Path [] [''out'']) True locked_start (''a.txt'', ''x'')) = []"
    using c1[THEN conjunct2] fc by (rule trans)
  show ?thesis
    by (intro conjI h1 c1[THEN conjunct1] c1b h2 c2 p1 p2 p3 p4 c4 ex)
qed

text \<open>
  As the specification states it, the property fails when what keeps an entry's file
  from being written is its directory.  The first entry of the mapping lies in
  \<^verbatim>\<open>out/a\<close>; where a regular file \<^verbatim>\<open>out/a\<close> is in the way, or nothing may be
  created in \<^verbatim>\<open>out\<close>, the run ends with the exception, and the second entry,
  \<^verbatim>\<open>b.txt\<close>, which a run of its own writes, is never processed.
\<close>

theorem parent_failure_counterexample:
  "sort blocked_files = [(''a/x.txt'', ''1''), (''b.txt'', ''2'')]
   \<and> (case create_project_structure blocked_files ''out'' True blocked_fs of
         Inl e \<Rightarrow> e = FileExistsError | Inr out \<Rightarrow> False)
   \<and> (case create_project_structure blocked_files ''out'' True protected_fs of
         Inl e \<Rightarrow> e = PermissionError | Inr out \<Rightarrow> False)
   \<and> (case create_project_structure [(''b.txt'', ''2'')] ''out'' True blocked_fs of
         Inl e \<Rightarrow> False
       | Inr out \<Rightarrow> files_count out = 1
           \<and> files (fs (final out)) [''work'', ''out'', ''b.txt''] = Some ''2'')"
  by code_simp

lemma create_project_structure_created:
  assumes "create_project_structure fd base_dir v fs0 = Inr out"
  shows "dirs_created (final out) = path_str ` parent_dirs (parse_path base_dir) (fst ` set fd)"
    and "dirs_count out = card (parent_dirs (parse_path base_dir) (fst ` set fd))"
    and "v \<Longrightarrow> length (filter is_dir_record (printed (final out))) = dirs_count out"
    and "v \<Longrightarrow> distinct (filter is_dir_record (printed (final out)))"
    and "v \<Longrightarrow> set (filter is_dir_record (printed (final out)))
           = {Created_directory rel |rel q.
                q \<in> parent_dirs (parse_path base_dir) (fst ` set fd)
                \<and> relative_to q (parse_path base_dir) = Inr rel}"
proof -
  from assms obtain fs1 where
    run: "process_entries (parse_path base_dir) v
           \<lparr>fs = fs1, dirs_created = {}, files_created = [], printed = []\<rparr> (sort fd)
         = Inr (final out)"
    and dc: "dirs_count out = card (dirs_created (final out))"
    by (rule create_project_structure_run)
  from process_entries_created[OF run]
  show created: "dirs_created (final out)
      = path_str ` parent_dirs (parse_path base_dir) (fst ` set fd)"
    by simp
  show "dirs_count out = card (parent_dirs (parse_path base_dir) (fst ` set fd))"
    unfolding dc created by (rule card_parent_strs) (rule wf_parse_path)
  show "length (filter is_dir_record (printed (final out))) = dirs_count out" if v
  proof -
    have "records_match \<lparr>fs = fs1, dirs_created = {}, files_created = [], printed = []\<rparr>"
      by (simp add: records_match_def)
    with run that have "records_match (final out)"
      by (auto intro: process_entries_records)
    then show ?thesis by (simp add: records_match_def dc)
  qed
  have ok: "dir_records_ok (parse_path base_dir) (final out)" if v
  proof -
    have "dir_records_ok (parse_path base_dir)
        \<lparr>fs = fs1, dirs_created = {}, files_created = [], printed = []\<rparr>"
      by (simp add: dir_records_ok_def)
    with run that show ?thesis
      by (auto intro: process_entries_dir_records wf_parse_path)
  qed
  show "distinct (filter is_dir_record (printed (final out)))" if v
    by (rule dir_records_exact(1)[OF ok[OF that] wf_parse_path created])
  show "set (filter is_dir_record (printed (final out)))
           = {Created_directory rel |rel q.
                q \<in> parent_dirs (parse_path base_dir) (fst ` set fd)
                \<and> relative_to q (parse_path base_dir) = Inr rel}" if v
    by (rule dir_records_exact(2)[OF ok[OF that] wf_parse_path created])
qed






lemma root_not_recorded:
  assumes "create_project_structure fd base_dir v fs0 = Inr out"
  shows "path_str (parse_path base_dir) \<notin> dirs_created (final out)"
proof
  assume "path_str (parse_path base_dir) \<in> dirs_created (final out)"
  then obtain p where p: "p \<in> parent_dirs (parse_path base_dir) (fst ` set fd)"
    and eq: "path_str (parse_path base_dir) = path_str p"
    unfolding create_project_structure_created(1)[OF assms] by blast
  from p have "wf_path p" by (rule wf_parent_dirs[OF wf_parse_path])
  with eq have "parse_path base_dir = p" by (intro path_str_inj wf_parse_path)
  with p show False by (auto simp: parent_dirs_def)
qed

text \<open>
  C9, as the code has it.  The directory count is the number of distinct paths of
  immediate parent directories of the entries' target files, the path of the root left
  out: a directory is counted only as the immediate parent of some entry of the
  mapping, whether or not that entry's file is then written, never for being an
  ancestor that the creation of a deeper directory brought into being; and the path of
  the root itself is never counted.
\<close>

theorem dirs_count_immediate_parents:
  "create_project_structure fd base_dir v fs0 = Inr out \<longrightarrow>
     dirs_count out
       = card {parent (joinpath (parse_path base_dir) k) |k.
                k \<in> fst ` set fd
                \<and> parent (joinpath (parse_path base_dir) k) \<noteq> parse_path base_dir}
     \<and> path_str (parse_path base_dir) \<notin> dirs_created (final out)
     \<and> (\<forall>d. d \<in> dirs_created (final out) \<longrightarrow>
          (\<exists>k. k \<in> fst ` set fd
             \<and> d = path_str (parent (joinpath (parse_path base_dir) k))))"
proof
  assume a: "create_project_structure fd base_dir v fs0 = Inr out"
  have "\<forall>d. d \<in> dirs_created (final out) \<longrightarrow>
          (\<exists>k. k \<in> fst ` set fd
             \<and> d = path_str (parent (joinpath (parse_path base_dir) k)))"
    unfolding create_project_structure_created(1)[OF a] parent_dirs_def by blast
  with create_project_structure_created(2)[OF a] root_not_recorded[OF a]
  show "dirs_count out
       = card {parent (joinpath (parse_path base_dir) k) |k.
                k \<in> fst ` set fd
                \<and> parent (joinpath (parse_path base_dir) k) \<noteq> parse_path base_dir}
     \<and> path_str (parse_path base_dir) \<notin> dirs_created (final out)
     \<and> (\<forall>d. d \<in> dirs_created (final out) \<longrightarrow>
          (\<exists>k. k \<in> fst ` set fd
             \<and> d = path_str (parent (joinpath (parse_path base_dir) k))))"
    unfolding parent_dirs_def by blast
qed

text \<open>The single entry \<^verbatim>\<open>a/b/c.txt\<close> in a fresh root: two directories come into being
  below the root, one is counted.\<close>

theorem dirs_count_witness:
  "\<exists>out. create_project_structure one_nested_file ''out'' True empty_fs = Inr out
     \<and> dirs_count out
       = card {parent (joinpath (parse_path ''out'') k) |k.
                k \<in> fst ` set one_nested_file
                \<and> parent (joinpath (parse_path ''out'') k) \<noteq> parse_path ''out''}
     \<and> path_str (parse_path ''out'') \<notin> dirs_created (final out)
     \<and> dirs_count out = 1
     \<and> dirs_created (final out) = {''out/a/b''}
     \<and> dirs (fs (final out))
         = {[''work''], [''work'', ''out''], [''work'', ''out'', ''a''],
            [''work'', ''out'', ''a'', ''b'']}
     \<and> files (fs (final out)) [''work'', ''out'', ''a'', ''b'', ''c.txt''] = Some ''x''"
proof -
  have "(case create_project_structure one_nested_file ''out'' True empty_fs of
       Inl e \<Rightarrow> False
     | Inr out \<Rightarrow> dirs_count out = 1 \<and> dirs_created (final out) = {''out/a/b''}
         \<and> dirs (fs (final out))
             = {[''work''], [''work'', ''out''], [''work'', ''out'', ''a''],
                [''work'', ''out'', ''a'', ''b'']}
         \<and> files (fs (final out)) [''work'', ''out'', ''a'', ''b'', ''c.txt''] = Some ''x'')"
    by code_simp
  then obtain out where
    o: "create_project_structure one_nested_file ''out'' True empty_fs = Inr out"
    and o1: "dirs_count out = 1" and o2: "dirs_created (final out) = {''out/a/b''}"
    and o3: "dirs (fs (final out))
             = {[''work''], [''work'', ''out''], [''work'', ''out'', ''a''],
                [''work'', ''out'', ''a'', ''b'']}"
    and o4: "files (fs (final out)) [''work'', ''out'', ''a'', ''b'', ''c.txt''] = Some ''x''"
    by (cases "create_project_structure one_nested_file ''out'' True empty_fs") simp_all
  from dirs_count_immediate_parents[of one_nested_file "''out''" True empty_fs out] o
  have "dirs_count out
       = card {parent (joinpath (parse_path ''out'') k) |k.
                k \<in> fst ` set one_nested_file
                \<and> parent (joinpath (parse_path ''out'') k) \<noteq> parse_path ''out''}
     \<and> path_str (parse_path ''out'') \<notin> dirs_created (final out)"
    by blast
  with o o1 o2 o3 o4 show ?thesis by blast
qed

text \<open>
  As the specification states it, the property fails in two ways.  The parent
  directory of an entry is counted when the entry's file is not written: where
  \<^verbatim>\<open>out/d/a.txt\<close> is a directory, the entry \<^verbatim>\<open>d/a.txt\<close> gives a directory count
  of 1 and a file count of 0.  And the root directory is counted when
  a key names it by another path: the parent of \<^verbatim>\<open>../out/a.txt\<close> below \<^verbatim>\<open>out\<close> is
  the root directory itself, and the count is 1.
\<close>

theorem dirs_count_counterexample:
  "(case create_project_structure nested_file_d ''out'' True occupied_fs of
      Inl e \<Rightarrow> False
    | Inr out \<Rightarrow> dirs_count out = 1 \<and> files_count out = 0
        \<and> printed (final out)
            = [Created_directory (Path [] [''d'']),
               Error_creating ''d/a.txt'' IsADirectoryError])
   \<and> (case create_project_structure root_respelled ''out'' True empty_fs of
        Inl e \<Rightarrow> False
      | Inr out \<Rightarrow> dirs_count out = 1 \<and> files_count out = 1
          \<and> dirs_created (final out) = {''out/../out''}
          \<and> locate (fs (final out)) (parent (joinpath (parse_path ''out'') ''../out/a.txt''))
              = Inr [''work'', ''out'']
          \<and> locate (fs (final out)) (parse_path ''out'') = Inr [''work'', ''out'']
          \<and> dirs (fs (final out)) = {[''work''], [''work'', ''out'']})"
  by code_simp

section \<open>What the patterns capture\<close>

lemma greedy_sound: "r \<in> set (greedy p s) \<Longrightarrow> \<exists>w. s = w @ r \<and> list_all p w"
proof (induction s)
  case Nil
  then show ?case by simp
next
  case (Cons x xs)
  show ?case
  proof (cases "r = x # xs")
    case True
    then show ?thesis by simp
  next
    case False
    with Cons.prems have px: "p x" and "r \<in> set (greedy p xs)" by (auto split: if_splits)
    with Cons.IH obtain w where "xs = w @ r" "list_all p w" by blast
    with px have "x # xs = (x # w) @ r \<and> list_all p (x # w)" by simp
    then show ?thesis by blast
  qed
qed

lemma lazy_sound: "r \<in> set (lazy p s) \<Longrightarrow> \<exists>w. s = w @ r \<and> list_all p w"
proof (induction s)
  case Nil
  then show ?case by simp
next
  case (Cons x xs)
  show ?case
  proof (cases "r = x # xs")
    case True
    then show ?thesis by simp
  next
    case False
    with Cons.prems have px: "p x" and "r \<in> set (lazy p xs)" by (auto split: if_splits)
    with Cons.IH obtain w where "xs = w @ r" "list_all p w" by blast
    with px have "x # xs = (x # w) @ r \<and> list_all p (x # w)" by simp
    then show ?thesis by blast
  qed
qed

lemma run_sound:
  "(r', g') \<in> set (run r (s, g)) \<Longrightarrow> \<exists>w. w \<in> lang r \<and> s = w @ r'"
proof (induction r arbitrary: s g r' g')
  case Eps
  then show ?case by simp
next
  case (Atom c)
  then show ?case by (auto split: list.splits if_splits)
next
  case (Cat a b)
  from Cat.prems obtain rm gm where m: "(rm, gm) \<in> set (run a (s, g))"
    and e: "(r', g') \<in> set (run b (rm, gm))" by auto
  from Cat.IH(1)[OF m] obtain u where u: "u \<in> lang a" "s = u @ rm" by blast
  from Cat.IH(2)[OF e] obtain v where v: "v \<in> lang b" "rm = v @ r'" by blast
  from u v have "u @ v \<in> lang (Cat a b) \<and> s = (u @ v) @ r'" by auto
  then show ?case by blast
next
  case (Alt a b)
  then show ?case by (auto dest: Alt.IH)
next
  case (Opt a)
  then show ?case by (auto dest: Opt.IH)
next
  case (Rep c)
  then show ?case by (auto dest: greedy_sound)
next
  case (Rep1 c)
  from Rep1 obtain x xs where s: "s = x # xs" and ax: "accepts c x"
    and "r' \<in> set (greedy (accepts c) xs)"
    by (auto split: list.splits if_splits)
  then obtain w where "xs = w @ r'" "list_all (accepts c) w" by (auto dest: greedy_sound)
  with s ax have "x # w \<in> lang (Rep1 c) \<and> s = (x # w) @ r'" by simp
  then show ?case by blast
next
  case (RepLazy c)
  then show ?case by (auto dest: lazy_sound)
next
  case (Group n a)
  then show ?case by (auto dest: Group.IH)
qed

lemma run_group_value:
  assumes "(r', g') \<in> set (run (Group n a) (s, g))"
  shows "g' n \<in> lang a"
proof -
  from assms obtain g0 where m: "(r', g0) \<in> set (run a (s, g))"
    and g': "g' = g0(n := take (length s - length r') s)" by auto
  from run_sound[OF m] obtain w where "w \<in> lang a" "s = w @ r'" by blast
  with g' show ?thesis by simp
qed

lemma run_may_set:
  "(r', g') \<in> set (run r (s, g)) \<Longrightarrow> g' n = g n \<or> g' n \<in> group_lang n r"
proof (induction r arbitrary: s g r' g')
  case (Cat a b)
  from Cat.prems obtain rm gm where m: "(rm, gm) \<in> set (run a (s, g))"
    and e: "(r', g') \<in> set (run b (rm, gm))" by auto
  from Cat.IH(1)[OF m] Cat.IH(2)[OF e] show ?case by auto
next
  case (Group m a)
  show ?case
  proof (cases "m = n")
    case True
    with run_group_value[OF Group.prems] show ?thesis by simp
  next
    case False
    from Group.prems obtain g0 where m: "(r', g0) \<in> set (run a (s, g))"
      and g': "g' = g0(m := take (length s - length r') s)" by auto
    from Group.IH[OF m] False g' show ?thesis by simp
  qed
next
  case (Alt a b)
  from Alt.prems consider "(r', g') \<in> set (run a (s, g))" | "(r', g') \<in> set (run b (s, g))"
    by auto
  then show ?case
  proof cases
    case 1
    from Alt.IH(1)[OF 1] show ?thesis by auto
  next
    case 2
    from Alt.IH(2)[OF 2] show ?thesis by auto
  qed
next
  case (Opt a)
  from Opt.prems consider "(r', g') \<in> set (run a (s, g))" | "g' = g" by auto
  then show ?case
  proof cases
    case 1
    from Opt.IH[OF 1] show ?thesis by auto
  next
    case 2
    then show ?thesis by simp
  qed
qed (auto split: list.splits if_splits)

lemma run_must_set:
  "sets_group n r \<Longrightarrow> (r', g') \<in> set (run r (s, g)) \<Longrightarrow> g' n \<in> group_lang n r"
proof (induction r arbitrary: s g r' g')
  case (Cat a b)
  from Cat.prems(2) obtain rm gm where m: "(rm, gm) \<in> set (run a (s, g))"
    and e: "(r', g') \<in> set (run b (rm, gm))" by auto
  show ?case
  proof (cases "sets_group n b")
    case True
    from Cat.IH(2)[OF True e] show ?thesis by simp
  next
    case False
    with Cat.prems(1) have "sets_group n a" by simp
    from Cat.IH(1)[OF this m] run_may_set[OF e, of n] show ?thesis by auto
  qed
next
  case (Alt a b)
  then show ?case by auto
next
  case (Group m a)
  show ?case
  proof (cases "m = n")
    case True
    with run_group_value[OF Group.prems(2)] show ?thesis by simp
  next
    case False
    from Group.prems(2) obtain g0 where m: "(r', g0) \<in> set (run a (s, g))"
      and g': "g' = g0(m := take (length s - length r') s)" by auto
    from False Group.prems(1) have "sets_group n a" by simp
    from Group.IH[OF this m] False g' show ?thesis by simp
  qed
qed simp_all


lemma lang_lit: "lang (lit s) = {s}"
  by (induction s) (auto simp: lit_def cats_def)

lemma lang_alts: "rs \<noteq> [] \<Longrightarrow> lang (alts rs) = \<Union> (lang ` set rs)"
  by (induction rs rule: alts.induct) auto

lemma lang_ext: "lang ext = set extensions"
proof -
  have "map lit extensions \<noteq> []" by (simp add: extensions_def)
  then have "lang ext = \<Union> (lang ` set (map lit extensions))"
    unfolding ext_def by (rule lang_alts)
  then show ?thesis by (simp add: lang_lit)
qed

lemma lang_name:
  "lang (cats [Rep1 c, Atom (Is (CHR ''.'')), Group 2 ext]) \<subseteq> named"
  by (auto simp: cats_def lang_ext named_def)

lemma group_lang_lit [simp]: "group_lang n (lit s) = {}"
  by (induction s) (auto simp: lit_def cats_def)

lemma sets_group_lit [simp]: "\<not> sets_group n (lit s)"
  by (induction s) (auto simp: lit_def cats_def)

lemma group_lang_fence [simp]: "n \<noteq> 3 \<Longrightarrow> group_lang n fence = {}"
  by (simp add: fence_def cats_def)

lemma group_one:
  assumes "p = pattern1 \<or> p = pattern2 \<or> p = pattern3"
  shows "sets_group 1 p" and "group_lang 1 p \<subseteq> named"
proof -
  have c: "cats (a # rs) = Cat a (cats rs)" for a rs by (simp add: cats_def)
  have n: "cats [] = Eps" by (simp add: cats_def)
  show "sets_group 1 p" using assms
    by (auto simp: pattern1_def pattern2_def pattern3_def c n)
  have "group_lang 1 pattern1 \<subseteq> named"
    using lang_name[of "IsNot (CHR ''*'')"]
    by (simp add: pattern1_def c n)
  moreover have "group_lang 1 pattern2 \<subseteq> named"
    using lang_name[of "IsNot NL"]
    by (simp add: pattern2_def c n)
  moreover have "group_lang 1 pattern3 \<subseteq> named"
    using lang_name[of "IsNot (CHR ''`'')"]
    by (simp add: pattern3_def c n)
  ultimately show "group_lang 1 p \<subseteq> named" using assms by blast
qed

lemma findall_matches:
  "m \<in> set (findall r s) \<Longrightarrow>
   \<exists>s' rest g. (rest, g) \<in> set (run r (s', \<lambda>_. [])) \<and> m = [g 1, g 2, g 3]"
proof (induction r s rule: findall.induct)
  case (1 r s)
  show ?case
  proof (cases "match_here r s")
    case None
    with "1.prems" obtain x xs where s: "s = x # xs" and "m \<in> set (findall r xs)"
      by (subst (asm) findall.simps) (auto split: list.splits)
    with "1.IH"(1)[OF None s] show ?thesis by blast
  next
    case (Some st)
    obtain rest g where st: "st = (rest, g)" by (cases st)
    from Some st have hd: "(rest, g) \<in> set (run r (s, \<lambda>_. []))"
      by (auto simp: match_here_def split: list.splits)
    from "1.prems" Some st consider "m = [g 1, g 2, g 3]"
      | "length rest < length s" "m \<in> set (findall r rest)"
      | x xs where "\<not> length rest < length s" "s = x # xs" "m \<in> set (findall r xs)"
      by (subst (asm) findall.simps) (auto split: list.splits if_splits)
    then show ?thesis
    proof cases
      case 1
      with hd show ?thesis by blast
    next
      case 2
      with "1.IH"(2)[OF Some st[symmetric]] show ?thesis by blast
    next
      case 3
      with "1.IH"(3)[OF Some st[symmetric]] show ?thesis by blast
    qed
  qed
qed


text \<open>A match of one of the three patterns is never empty, so the scan of
  \<^const>\<open>findall\<close> always restarts behind the match.\<close>

lemma lang_cats_Cons: "lang (cats (a # rs)) = {u @ v |u v. u \<in> lang a \<and> v \<in> lang (cats rs)}"
  by (simp add: cats_def)

lemma patterns_consume:
  assumes "p = pattern1 \<or> p = pattern2 \<or> p = pattern3"
    and "match_here p s = Some (rest, g)"
  shows "length rest < length s"
proof -
  have "[] \<notin> lang p"
    using assms(1)
    by (auto simp: pattern1_def pattern2_def pattern3_def lang_cats_Cons lang_lit)
  moreover from assms(2) have "(rest, g) \<in> set (run p (s, \<lambda>_. []))"
    by (auto simp: match_here_def split: list.splits)
  then obtain w where "w \<in> lang p" "s = w @ rest" by (auto dest: run_sound)
  ultimately show ?thesis by (cases w) auto
qed

lemma dropWhile_stops: "\<not> P c \<Longrightarrow> \<exists>x'. dropWhile P (x @ c # y) = x' @ c # y"
proof (induction x)
  case Nil
  then show ?case by simp
next
  case (Cons a x)
  then obtain x' where "dropWhile P (x @ c # y) = x' @ c # y" by blast
  then show ?case by (cases "P a") (auto intro: exI[of _ "a # x"])
qed

lemma extensions_end: "list_all (\<lambda>e. e \<noteq> [] \<and> \<not> isspace (last e)) extensions"
  by code_simp

lemma dot_not_space: "\<not> isspace (CHR ''.'')"
  by code_simp

lemma strip_named:
  assumes "w \<in> named"
  shows "\<exists>x e. strip w = x @ ''.'' @ e \<and> e \<in> set extensions"
proof -
  from assms obtain x e where w: "w = x @ ''.'' @ e" and e: "e \<in> set extensions"
    by (auto simp: named_def)
  from e extensions_end have ne: "e \<noteq> []" and le: "\<not> isspace (last e)"
    by (auto simp: list_all_iff)
  from dropWhile_stops[of isspace "CHR ''.''" x e] dot_not_space obtain x'
    where d: "dropWhile isspace w = x' @ CHR ''.'' # e" unfolding w by auto
  let ?z = "x' @ CHR ''.'' # e"
  from ne have "hd (rev ?z) = last e" by (simp add: hd_rev)
  with le have "\<not> isspace (hd (rev ?z))" by (simp only: not_False_eq_True)
  then have "rev ?z = [] \<or> \<not> isspace (hd (rev ?z))" by (rule disjI2)
  then have "dropWhile isspace (rev ?z) = rev ?z"
    by (simp only: dropWhile_eq_self_iff)
  then have "strip w = ?z" unfolding strip_def d by (simp only: rev_rev_ident)
  then have "strip w = x' @ ''.'' @ e" by simp
  with e show ?thesis by blast
qed

lemma store_match_keys:
  "fst ` set (store_match fd m) \<subseteq> insert (match_path m) (fst ` set fd)"
  by (auto simp: store_match_kept dom_update)

lemma foldl_store_keys:
  "fst ` set (foldl store_match fd ms) \<subseteq> fst ` set fd \<union> match_path ` set ms"
proof (induction ms arbitrary: fd)
  case Nil
  then show ?case by simp
next
  case (Cons m ms)
  from Cons.IH[of "store_match fd m"] store_match_keys[of fd m]
  show ?case by auto
qed

lemma match_named:
  assumes "m \<in> set (all_matches doc)"
  shows "m ! 0 \<in> named"
proof -
  from assms obtain p where p: "p = pattern1 \<or> p = pattern2 \<or> p = pattern3"
    and m: "m \<in> set (findall p doc)"
    by (auto simp: all_matches_def)
  from findall_matches[OF m] obtain s' rest g
    where r: "(rest, g) \<in> set (run p (s', \<lambda>_. []))" and mg: "m = [g 1, g 2, g 3]" by blast
  from run_must_set[OF group_one(1)[OF p] r] group_one(2)[OF p] have "g 1 \<in> named" by blast
  with mg show ?thesis by simp
qed

text \<open>
  C5, as the code has it.  For every input document, every key of the extraction
  result is non-empty: it ends in a dot followed by a recognized extension.  (Nothing
  keeps a key from being an absolute path.)
\<close>

theorem keys_end_in_extension:
  "\<forall>k \<in> fst ` set (extract_files_from_markdown doc).
     k \<noteq> [] \<and> (\<exists>e \<in> set extensions. suffix (''.'' @ e) k)"
proof
  fix k assume "k \<in> fst ` set (extract_files_from_markdown doc)"
  with foldl_store_keys[of "[]" "all_matches doc"]
  obtain m where m: "m \<in> set (all_matches doc)" and k: "k = match_path m"
    unfolding extract_as_fold by auto
  from strip_named[OF match_named[OF m]] obtain x e
    where "strip (m ! 0) = x @ ''.'' @ e" "e \<in> set extensions" by blast
  with k have "k = x @ ''.'' @ e" "e \<in> set extensions" by (simp_all add: match_path_def)
  then show "k \<noteq> [] \<and> (\<exists>e \<in> set extensions. suffix (''.'' @ e) k)"
    by (auto simp: suffix_def)
qed

theorem keys_end_in_extension_witness:
  "''/etc/app.py'' \<in> fst ` set (extract_files_from_markdown doc_abs)
   \<and> ''/etc/app.py'' \<noteq> []
   \<and> (\<exists>e \<in> set extensions. suffix (''.'' @ e) ''/etc/app.py'')"
proof -
  have "extract_files_from_markdown doc_abs = [(''/etc/app.py'', ''x'')]" by code_simp
  then have h: "''/etc/app.py'' \<in> fst ` set (extract_files_from_markdown doc_abs)" by simp
  with keys_end_in_extension[of doc_abs] show ?thesis by blast
qed

text \<open>
  As the specification states it, the property fails: a bold path that starts with a
  slash is taken as it is,
  and the key is an absolute path.
\<close>

theorem absolute_key_counterexample:
  "extract_files_from_markdown doc_abs = [(''/etc/app.py'', ''x'')]
   \<and> is_absolute (parse_path ''/etc/app.py'')
   \<and> joinpath (parse_path ''out'') ''/etc/app.py'' = Path ''/'' [''etc'', ''app.py'']"
  by code_simp

section \<open>Running the Materializer twice\<close>

lemma grows_refl: "grows a a"
  by (simp add: grows_def)

lemma grows_trans: "grows a c \<Longrightarrow> grows c d \<Longrightarrow> grows a d"
  unfolding grows_def by (metis subset_trans)

lemma walk_mono: "dirs a \<subseteq> dirs c \<Longrightarrow> walk a n xs = Inr m \<Longrightarrow> walk c n xs = Inr m"
  by (induction xs arbitrary: n) (auto simp: dir_at_def split: if_splits)

lemma locate_mono: "grows a c \<Longrightarrow> locate a p = Inr n \<Longrightarrow> locate c p = Inr n"
  by (auto simp: locate_def grows_def split: if_splits intro: walk_mono)

lemma grows_dir_at: "grows a c \<Longrightarrow> dir_at a n \<Longrightarrow> dir_at c n"
  by (auto simp: grows_def dir_at_def)

lemma is_dir_iff: "is_dir a p \<longleftrightarrow> (\<exists>n. locate a p = Inr n \<and> dir_at a n)"
  by (cases "locate a p") (simp_all add: is_dir_def)

lemma grows_is_dir: "grows a c \<Longrightarrow> is_dir a p \<Longrightarrow> is_dir c p"
  unfolding is_dir_iff by (blast intro: locate_mono grows_dir_at)

lemma walk_shape:
  assumes "dirs t = dirs c" "\<forall>n. file_at t n = file_at c n"
  shows "walk t n xs = walk c n xs"
proof (induction xs arbitrary: n)
  case Nil
  show ?case by simp
next
  case (Cons x xs)
  have d: "dir_at t n = dir_at c n" by (simp add: dir_at_def assms(1))
  have f: "file_at t n = file_at c n" using assms(2) by blast
  show ?case unfolding walk.simps d f Cons.IH by (rule refl)
qed

lemma same_shape_locate:
  assumes "same_shape c t"
  shows "locate t p = locate c p"
proof -
  from assms have c: "cwd t = cwd c" and d: "dirs t = dirs c"
    and f: "\<forall>n. file_at t n = file_at c n"
    by (simp_all add: same_shape_def)
  show ?thesis unfolding locate_def c walk_shape[OF d f] by (rule refl)
qed

lemma same_shape_dir_at: "same_shape c t \<Longrightarrow> dir_at t n = dir_at c n"
  by (simp add: same_shape_def dir_at_def)

lemma same_shape_is_dir: "same_shape c t \<Longrightarrow> is_dir t p = is_dir c p"
  unfolding is_dir_iff by (simp add: same_shape_locate same_shape_dir_at)

lemma same_shape_refl: "same_shape c c"
  by (simp add: same_shape_def)

lemma os_mkdir_result:
  assumes "os_mkdir a p = Inr c"
  shows "is_dir c p" "grows a c" "files c = files a" "wf_fs a \<Longrightarrow> wf_fs c"
proof -
  from assms obtain n where n: "locate a p = Inr n"
    and nd: "\<not> dir_at a n" "\<not> file_at a n" and c: "c = a\<lparr>dirs := insert n (dirs a)\<rparr>"
    by (auto simp: os_mkdir_def split: sum.splits if_splits)
  show g: "grows a c" unfolding c by (auto simp: grows_def file_at_def)
  from locate_mono[OF g n] show "is_dir c p" by (simp add: is_dir_def c dir_at_def)
  show "files c = files a" by (simp add: c)
  show "wf_fs c" if "wf_fs a"
    using that nd unfolding c by (auto simp: wf_fs_def dir_at_def file_at_def)
qed

lemma os_mkdir_existing: "is_dir a p \<Longrightarrow> os_mkdir a p = Inl FileExistsError"
  by (auto simp: is_dir_iff os_mkdir_def)

lemma mkdir_once_result:
  assumes "mkdir_once a p = Inr c"
  shows "is_dir c p \<and> grows a c \<and> files c = files a \<and> (wf_fs a \<longrightarrow> wf_fs c)"
proof (cases "os_mkdir a p")
  case (Inr c')
  with assms have "c' = c" by (simp add: mkdir_once_def)
  with os_mkdir_result[OF Inr] show ?thesis by simp
next
  case (Inl e)
  with assms have "c = a" "is_dir a p" by (auto simp: mkdir_once_def split: if_splits)
  then show ?thesis by (simp add: grows_refl)
qed

lemma mkdir_p_facts:
  "mkdir_p a p = Inr c \<Longrightarrow>
   is_dir c p \<and> grows a c \<and> files c = files a \<and> (wf_fs a \<longrightarrow> wf_fs c)"
proof (induction a p arbitrary: c rule: mkdir_p.induct)
  case (1 a p)
  show ?case
  proof (cases "os_mkdir a p")
    case (Inr c')
    with "1.prems" have "c' = c" by (subst (asm) mkdir_p.simps) simp
    with os_mkdir_result[OF Inr] show ?thesis by simp
  next
    case (Inl e)
    show ?thesis
    proof (cases "e = FileNotFoundError")
      case True
      from "1.prems" Inl True have ne: "parent p \<noteq> p"
        by (subst (asm) mkdir_p.simps) (auto split: if_splits)
      from "1.prems" Inl True ne obtain a1 where
        r: "mkdir_p a (parent p) = Inr a1" and o: "mkdir_once a1 p = Inr c"
        by (subst (asm) mkdir_p.simps) (auto split: sum.splits)
      from "1.IH"[OF Inl True ne r] mkdir_once_result[OF o] show ?thesis
        by (auto intro: grows_trans)
    next
      case False
      with "1.prems" Inl have "c = a \<and> is_dir a p"
        by (subst (asm) mkdir_p.simps) (auto split: if_splits)
      then show ?thesis by (simp add: grows_refl)
    qed
  qed
qed

lemma mkdir_p_result:
  assumes "mkdir_p a p = Inr c"
  shows "is_dir c p" "grows a c" "files c = files a" "wf_fs a \<Longrightarrow> wf_fs c"
  using mkdir_p_facts[OF assms] by simp_all

lemma mkdir_p_existing: "is_dir a p \<Longrightarrow> mkdir_p a p = Inr a"
  by (subst mkdir_p.simps) (simp add: os_mkdir_existing)

lemma open_write_result:
  assumes "open_write a p x = Inr c"
  obtains n where "locate a p = Inr n" "c = a\<lparr>files := (files a)(n \<mapsto> x)\<rparr>"
    "\<not> dir_at a n" "n \<notin> readonly a" "file_at a n \<or> butlast n \<notin> readonly a"
  using assms by (auto simp: open_write_def split: sum.splits if_splits)

lemma open_write_grows:
  assumes "open_write a p x = Inr c"
  shows "grows a c" "wf_fs a \<Longrightarrow> wf_fs c"
proof -
  from assms obtain n where c: "c = a\<lparr>files := (files a)(n \<mapsto> x)\<rparr>"
    and nd: "\<not> dir_at a n" and new: "file_at a n \<or> butlast n \<notin> readonly a"
    by (rule open_write_result)
  show "grows a c" using new unfolding c by (auto simp: grows_def file_at_def)
  show "wf_fs c" if "wf_fs a"
    using that nd unfolding c by (auto simp: wf_fs_def dir_at_def file_at_def)
qed


lemma ensure_parent_fs:
  assumes "ensure_parent b v s k = Inr s1"
  shows "grows (fs s) (fs s1)" "files (fs s1) = files (fs s)"
    "wf_fs (fs s) \<Longrightarrow> wf_fs (fs s1)" "files_created s1 = files_created s"
  using assms
  by (cases rule: ensure_parent_cases; auto simp: grows_refl dest: mkdir_p_result)+

lemma ensure_parent_parents:
  assumes "ensure_parent b v s k = Inr s1" "wf_path b" "parents_exist b s"
  shows "parents_exist b s1" "is_dir (fs s1) (parent (joinpath b k))"
proof -
  let ?q = "parent (joinpath b k)"
  have wq: "wf_path ?q" using assms(2) by (intro wf_parent wf_joinpath)
  from assms(1) have "parents_exist b s1 \<and> is_dir (fs s1) ?q"
  proof (cases rule: ensure_parent_cases)
    case skip
    with assms(3) wq show ?thesis by (auto simp: parents_exist_def)
  next
    case (made c)
    from mkdir_p_result[OF made(3)] have d: "is_dir c ?q" and g: "grows (fs s) c" by auto
    have "is_dir c q" if "wf_path q" "path_str q \<in> dirs_created s1" for q
    proof (cases "path_str q = path_str ?q")
      case True
      with that(1) wq have "q = ?q" by (intro path_str_inj)
      with d show ?thesis by simp
    next
      case False
      with that made(5) have "path_str q \<in> dirs_created s" by simp
      with assms(3) that(1) have "is_dir (fs s) q" by (simp add: parents_exist_def)
      with g show ?thesis by (rule grows_is_dir)
    qed
    moreover from assms(3) g have "is_dir c b"
      by (auto simp: parents_exist_def intro: grows_is_dir)
    ultimately show ?thesis using made(4) d by (simp add: parents_exist_def)
  qed
  then show "parents_exist b s1" "is_dir (fs s1) ?q" by simp_all
qed

lemma write_entry_fs:
  "grows (fs s) (fs (write_entry b v s e))"
  "wf_fs (fs s) \<Longrightarrow> wf_fs (fs (write_entry b v s e))"
  "parents_exist b' s \<Longrightarrow> parents_exist b' (write_entry b v s e)"
proof -
  obtain k x where e: "e = (k, x)" by (cases e)
  show g: "grows (fs s) (fs (write_entry b v s e))"
    unfolding e
    by (cases "open_write (fs s) (joinpath b k) x")
       (auto simp: write_entry_def grows_refl dest: open_write_grows(1))
  show "wf_fs (fs (write_entry b v s e))" if "wf_fs (fs s)"
    using that unfolding e
    by (cases "open_write (fs s) (joinpath b k) x")
       (auto simp: write_entry_def dest: open_write_grows(2))
  show "parents_exist b' (write_entry b v s e)" if "parents_exist b' s"
    using that g by (auto simp: parents_exist_def intro: grows_is_dir)
qed

lemma process_entries_grows:
  "process_entries b v s es = Inr f \<Longrightarrow>
   grows (fs s) (fs f) \<and> (wf_fs (fs s) \<longrightarrow> wf_fs (fs f))"
proof (induction es arbitrary: s)
  case Nil
  then show ?case by (simp add: grows_refl)
next
  case (Cons e es)
  from Cons.prems obtain s1 where
    ep: "ensure_parent b v s (fst e) = Inr s1" and
    rest: "process_entries b v (write_entry b v s1 e) es = Inr f"
    by (auto split: sum.splits)
  from Cons.IH[OF rest] ensure_parent_fs(1,3)[OF ep] write_entry_fs(1,2)[of s1 b v e]
  show ?case by (blast intro: grows_trans)
qed


lemma ensure_parent_rerun:
  assumes ep: "ensure_parent b v s k = Inr s1"
    and dc: "dirs_created t = dirs_created s"
    and sub: "\<And>q. is_dir (fs s1) q \<Longrightarrow> is_dir (fs t) q"
  shows "\<exists>t1. ensure_parent b v t k = Inr t1 \<and> fs t1 = fs t
     \<and> dirs_created t1 = dirs_created s1 \<and> files_created t1 = files_created t"
  using ep
proof (cases rule: ensure_parent_cases)
  case skip
  from skip(1) have "ensure_parent b v t k = Inr t"
    unfolding dc[symmetric] by (rule ensure_parent_skip)
  with skip(2) dc show ?thesis by simp
next
  case (made c)
  let ?q = "parent (joinpath b k)"
  from mkdir_p_result(1)[OF made(3)] made(4) sub
  have "is_dir (fs t) ?q" by blast
  then have mk: "mkdir_p (fs t) ?q = Inr (fs t)" by (rule mkdir_p_existing)
  from made(2) have n2: "path_str ?q \<notin> dirs_created t" by (simp add: dc)
  show ?thesis
  proof (cases v)
    case True
    with made(7) obtain rel where "relative_to ?q b = Inr rel" by blast
    with True mk made(5) dc show ?thesis
      by (simp add: ensure_parent_make[OF made(1) n2])
  next
    case False
    with mk made(5) dc show ?thesis
      by (simp add: ensure_parent_make[OF made(1) n2])
  qed
qed

lemma open_write_again:
  assumes ok: "open_write a p x = Inr a'" and n: "locate a p = Inr n"
    and g: "grows a' c" and w: "wf_fs c" and sh: "same_shape c t"
  shows "open_write t p x = Inr (t\<lparr>files := (files t)(n \<mapsto> x)\<rparr>)"
proof -
  from ok n have a': "a' = a\<lparr>files := (files a)(n \<mapsto> x)\<rparr>" and ro: "n \<notin> readonly a"
    by (auto elim!: open_write_result)
  from open_write_grows(1)[OF ok] g have ga: "grows a c" by (rule grows_trans)
  from locate_mono[OF ga n] have lt: "locate t p = Inr n"
    by (simp add: same_shape_locate[OF sh])
  have "file_at a' n" unfolding a' by (simp add: file_at_def)
  with g have fc: "file_at c n" by (simp add: grows_def)
  with w have "\<not> dir_at c n" by (auto simp: wf_fs_def)
  then have 1: "\<not> dir_at t n" by (simp add: same_shape_dir_at[OF sh])
  from ga ro sh have 2: "n \<notin> readonly t" by (simp add: grows_def same_shape_def)
  from fc sh have 3: "file_at t n" by (simp add: same_shape_def)
  from lt 1 2 3 show ?thesis by (simp add: open_write_def)
qed

lemma walk_snoc:
  "walk a n (ps @ [x]) = (case walk a n ps of Inl e \<Rightarrow> Inl e | Inr m \<Rightarrow> walk a m [x])"
  by (induction ps arbitrary: n) simp_all

lemma walk_last_fails:
  assumes "walk a n0 ps = Inr m" "dir_at a m" "walk a n0 (ps @ [x]) = Inl e"
    and "walk t n0 ps = Inr m" "dir_at t m"
  shows "walk t n0 (ps @ [x]) = Inl e"
  using assms by (simp add: walk_snoc split: if_splits)

lemma locate_fails_again:
  assumes bad: "locate a p = Inl e"
    and pd: "is_dir a (parent p)"
    and g: "grows a c" and sh: "same_shape c t"
  shows "locate t p = Inl e"
proof (cases "CHR 0x00 \<in> set (path_str p) \<or> 4095 < utf8_length (path_str p)")
  case True
  with bad show ?thesis by (auto simp: locate_def split: if_splits)
next
  case False
  define n0 where "n0 = (if anchor p = [] then cwd a else [])"
  from g sh have cw: "cwd t = cwd a" by (simp add: grows_def same_shape_def)
  from False bad have wb: "walk a n0 (parts p) = Inl e" by (simp add: locate_def n0_def)
  then have "parts p \<noteq> []" by auto
  then obtain ps x where px: "parts p = ps @ [x]" by (metis rev_exhaust)
  from pd obtain m where lm: "locate a (parent p) = Inr m" and dm: "dir_at a m"
    unfolding is_dir_iff by blast
  have pp: "parent p = Path (anchor p) ps" using px by (simp add: parent_def)
  from lm have wm: "walk a n0 ps = Inr m"
    by (auto simp: locate_def pp n0_def split: if_splits)
  from g sh have sub: "dirs a \<subseteq> dirs t" by (simp add: grows_def same_shape_def)
  from walk_mono[OF sub wm] have wt: "walk t n0 ps = Inr m" .
  from sub dm have dt: "dir_at t m" by (auto simp: dir_at_def)
  from walk_last_fails[OF wm dm wb[unfolded px] wt dt]
  have "walk t n0 (parts p) = Inl e" by (simp add: px)
  moreover have "locate t p = walk t n0 (parts p)"
    using False cw by (simp add: locate_def n0_def)
  ultimately show ?thesis by simp
qed

lemma open_write_fails_again:
  assumes bad: "open_write a p x = Inl e"
    and pd: "is_dir a (parent p)"
    and g: "grows a c" and sh: "same_shape c t"
  shows "\<exists>e'. open_write t p x = Inl e'"
proof (cases "locate a p")
  case (Inl e0)
  from locate_fails_again[OF Inl pd g sh] show ?thesis by (simp add: open_write_def)
next
  case (Inr n)
  from locate_mono[OF g Inr] have lt: "locate t p = Inr n"
    by (simp add: same_shape_locate[OF sh])
  from bad Inr consider "dir_at a n" | "n \<in> readonly a"
    | "\<not> file_at a n" "butlast n \<in> readonly a"
    by (auto simp: open_write_def split: if_splits)
  then show ?thesis
  proof cases
    case 1
    with g have "dir_at c n" by (rule grows_dir_at)
    then have "dir_at t n" by (simp add: same_shape_dir_at[OF sh])
    with lt show ?thesis by (simp add: open_write_def)
  next
    case 2
    with g sh have "n \<in> readonly t" by (simp add: grows_def same_shape_def)
    with lt show ?thesis by (simp add: open_write_def)
  next
    case 3
    with g have "\<not> file_at c n" by (auto simp: grows_def)
    with sh have "\<not> file_at t n" by (simp add: same_shape_def)
    moreover from 3 g sh have "butlast n \<in> readonly t" by (simp add: grows_def same_shape_def)
    ultimately show ?thesis using lt by (simp add: open_write_def)
  qed
qed


lemma write_entry_ok:
  assumes "open_write (fs s) (joinpath b k) x = Inr a'"
  shows "fs (write_entry b v s (k, x)) = a'"
    "files_created (write_entry b v s (k, x)) = files_created s @ [k]"
  using assms by (simp_all add: write_entry_def)

lemma write_entry_bad:
  assumes "open_write (fs s) (joinpath b k) x = Inl e"
  shows "fs (write_entry b v s (k, x)) = fs s"
    "files_created (write_entry b v s (k, x)) = files_created s"
  using assms by (simp_all add: write_entry_def)

lemma write_entry_rerun:
  assumes pd: "is_dir (fs s1) (parent (joinpath b k))"
    and g: "grows (fs (write_entry b v s1 (k, x))) c" and w: "wf_fs c"
    and sh: "same_shape c (fs t1)"
    and fc: "files_created t1 = files_created s1"
    and e: "\<forall>n. files (fs t1) n = files c n \<or> files (fs t1) n = files (fs s1) n"
  shows "files_created (write_entry b v t1 (k, x)) = files_created (write_entry b v s1 (k, x))"
    and "same_shape c (fs (write_entry b v t1 (k, x)))"
    and "\<forall>n. files (fs (write_entry b v t1 (k, x))) n = files c n
           \<or> files (fs (write_entry b v t1 (k, x))) n
               = files (fs (write_entry b v s1 (k, x))) n"
proof -
  let ?p = "joinpath b k"
  let ?s2 = "write_entry b v s1 (k, x)" and ?t2 = "write_entry b v t1 (k, x)"
  have "files_created ?t2 = files_created ?s2 \<and> same_shape c (fs ?t2)
     \<and> (\<forall>n. files (fs ?t2) n = files c n \<or> files (fs ?t2) n = files (fs ?s2) n)"
  proof (cases "open_write (fs s1) ?p x")
    case (Inr a')
    note s2 = write_entry_ok[OF Inr, of v]
    from g have ga: "grows a' c" by (simp add: s2)
    from Inr obtain m where m: "locate (fs s1) ?p = Inr m"
      and a': "a' = (fs s1)\<lparr>files := (files (fs s1))(m \<mapsto> x)\<rparr>"
      by (rule open_write_result)
    from open_write_again[OF Inr m ga w sh]
    have ot: "open_write (fs t1) ?p x = Inr ((fs t1)\<lparr>files := (files (fs t1))(m \<mapsto> x)\<rparr>)" .
    note t2 = write_entry_ok[OF ot, of v]
    have "file_at a' m" unfolding a' by (simp add: file_at_def)
    with ga have "file_at c m" by (simp add: grows_def)
    with sh have "same_shape c (fs ?t2)"
      unfolding t2 by (auto simp: same_shape_def file_at_def)
    moreover have "\<forall>n. files (fs ?t2) n = files c n \<or> files (fs ?t2) n = files (fs ?s2) n"
      using e unfolding t2 s2 a' by auto
    ultimately show ?thesis using fc by (simp add: s2 t2)
  next
    case (Inl err)
    note s2 = write_entry_bad[OF Inl, of v]
    from g have ga: "grows (fs s1) c" by (simp add: s2)
    from open_write_fails_again[OF Inl pd ga sh]
    obtain e' where ot: "open_write (fs t1) ?p x = Inl e'" by blast
    note t2 = write_entry_bad[OF ot, of v]
    from sh e fc show ?thesis by (simp add: s2 t2)
  qed
  then show "files_created ?t2 = files_created ?s2" "same_shape c (fs ?t2)"
    "\<forall>n. files (fs ?t2) n = files c n \<or> files (fs ?t2) n = files (fs ?s2) n"
    by blast+
qed

lemma rerun:
  assumes "process_entries b v s es = Inr f" "wf_path b" "parents_exist b s" "wf_fs (fs s)"
    "dirs_created t = dirs_created s" "files_created t = files_created s"
    "same_shape (fs f) (fs t)"
    "\<forall>n. files (fs t) n = files (fs f) n \<or> files (fs t) n = files (fs s) n"
  shows "\<exists>f'. process_entries b v t es = Inr f' \<and> dirs_created f' = dirs_created f
     \<and> files_created f' = files_created f \<and> files (fs f') = files (fs f)
     \<and> dirs (fs f') = dirs (fs f)"
  using assms
proof (induction es arbitrary: s t)
  case Nil
  then have "s = f" by simp
  with Nil.prems have "files (fs t) = files (fs f)" by auto
  with Nil.prems \<open>s = f\<close> show ?case by (simp add: same_shape_def)
next
  case (Cons e es)
  obtain k x where e: "e = (k, x)" by (cases e)
  let ?p = "joinpath b k"
  from Cons.prems(1) obtain s1 where
    ep: "ensure_parent b v s k = Inr s1" and
    rest: "process_entries b v (write_entry b v s1 e) es = Inr f"
    by (auto simp: e split: sum.splits)
  let ?s2 = "write_entry b v s1 e"
  note pe1 = ensure_parent_parents[OF ep Cons.prems(2,3)]
  note f1 = ensure_parent_fs[OF ep]
  from f1(3) Cons.prems(4) have w1: "wf_fs (fs s1)" by simp
  then have w2: "wf_fs (fs ?s2)" by (rule write_entry_fs(2))
  from pe1(1) have pe2: "parents_exist b ?s2" by (rule write_entry_fs(3))
  from process_entries_grows[OF rest] w2
  have g2f: "grows (fs ?s2) (fs f)" and wf: "wf_fs (fs f)" by simp_all
  have g12: "grows (fs s1) (fs ?s2)" by (rule write_entry_fs(1))
  have sub: "is_dir (fs t) q" if "is_dir (fs s1) q" for q
  proof -
    from g12 that have "is_dir (fs ?s2) q" by (rule grows_is_dir)
    with g2f have "is_dir (fs f) q" by (rule grows_is_dir)
    then show ?thesis by (simp add: same_shape_is_dir[OF Cons.prems(7)])
  qed
  from ensure_parent_rerun[OF ep Cons.prems(5) sub] obtain t1 where
    et: "ensure_parent b v t k = Inr t1" and t1: "fs t1 = fs t"
    "dirs_created t1 = dirs_created s1" "files_created t1 = files_created t"
    by blast
  let ?t2 = "write_entry b v t1 e"
  have sh1: "same_shape (fs f) (fs t1)" using Cons.prems(7) by (simp add: t1)
  have fc1: "files_created t1 = files_created s1" using t1(3) Cons.prems(6) f1(4) by simp
  have e1: "\<forall>n. files (fs t1) n = files (fs f) n \<or> files (fs t1) n = files (fs s1) n"
    using Cons.prems(8) by (simp add: t1 f1(2))
  note w = write_entry_rerun[OF pe1(2) g2f[unfolded e] wf sh1 fc1 e1, folded e]
  have dc2: "dirs_created ?t2 = dirs_created ?s2" by (simp add: t1)
  from Cons.IH[OF rest Cons.prems(2) pe2 w2 dc2 w(1) w(2) w(3)]
  obtain f' where "process_entries b v ?t2 es = Inr f'" "dirs_created f' = dirs_created f"
    "files_created f' = files_created f" "files (fs f') = files (fs f)"
    "dirs (fs f') = dirs (fs f)" by blast
  with et show ?case by (auto simp: e)
qed


lemma process_entries_written:
  "process_entries b v s es = Inr f \<Longrightarrow>
   \<exists>ks. files_created f = files_created s @ ks \<and> set ks \<subseteq> fst ` set es"
proof (induction es arbitrary: s)
  case Nil
  then show ?case by simp
next
  case (Cons e es)
  obtain k x where e: "e = (k, x)" by (cases e)
  from Cons.prems obtain s1 where
    ep: "ensure_parent b v s k = Inr s1" and
    rest: "process_entries b v (write_entry b v s1 e) es = Inr f"
    by (auto simp: e split: sum.splits)
  from Cons.IH[OF rest] obtain ks where
    ks: "files_created f = files_created (write_entry b v s1 e) @ ks" "set ks \<subseteq> fst ` set es"
    by blast
  have "files_created (write_entry b v s1 e) = files_created s
      \<or> files_created (write_entry b v s1 e) = files_created s @ [k]"
    unfolding e
    by (cases "open_write (fs s1) (joinpath b k) x")
       (simp_all add: write_entry_ok write_entry_bad ensure_parent_fs(4)[OF ep])
  then show ?case
  proof
    assume "files_created (write_entry b v s1 e) = files_created s"
    with ks have "files_created f = files_created s @ ks \<and> set ks \<subseteq> fst ` set (e # es)"
      by auto
    then show ?thesis by blast
  next
    assume "files_created (write_entry b v s1 e) = files_created s @ [k]"
    with ks have "files_created f = files_created s @ (k # ks)
        \<and> set (k # ks) \<subseteq> fst ` set (e # es)"
      by (auto simp: e)
    then show ?thesis by blast
  qed
qed

lemma last_write:
  "process_entries b v s es = Inr f \<Longrightarrow> distinct (map fst es) \<Longrightarrow>
   fst ` set es \<inter> set (files_created s) = {} \<Longrightarrow>
   files (fs f) n =
     (case written_to b f es n of [] \<Rightarrow> files (fs s) n
      | w # ws \<Rightarrow> Some (snd (last (w # ws))))"
proof (induction es arbitrary: s)
  case Nil
  then show ?case by (simp add: written_to_def)
next
  case (Cons e es)
  obtain k x where e: "e = (k, x)" by (cases e)
  let ?p = "joinpath b k"
  from Cons.prems(1) obtain s1 where
    ep: "ensure_parent b v s k = Inr s1" and
    rest: "process_entries b v (write_entry b v s1 e) es = Inr f"
    by (auto simp: e split: sum.splits)
  let ?s2 = "write_entry b v s1 e"
  note f1 = ensure_parent_fs[OF ep]
  from Cons.prems(2) have d: "distinct (map fst es)" and kn: "k \<notin> fst ` set es"
    by (auto simp: e)
  from Cons.prems(3) have ko: "k \<notin> set (files_created s)"
    and disj0: "fst ` set es \<inter> set (files_created s) = {}"
    by (auto simp: e)
  from process_entries_written[OF rest] obtain ks where
    ks: "files_created f = files_created ?s2 @ ks" "set ks \<subseteq> fst ` set es" by blast
  from process_entries_grows[OF rest] have g2: "grows (fs ?s2) (fs f)" by simp
  define W where "W = written_to b f es n"
  show ?case
  proof (cases "open_write (fs s1) ?p x")
    case (Inr a')
    note s2 = write_entry_ok[OF Inr, of v, folded e]
    from Inr obtain m where m: "locate (fs s1) ?p = Inr m"
      and a': "a' = (fs s1)\<lparr>files := (files (fs s1))(m \<mapsto> x)\<rparr>"
      by (rule open_write_result)
    have disj: "fst ` set es \<inter> set (files_created ?s2) = {}"
      using disj0 kn by (auto simp: s2 f1(4))
    have IH: "files (fs f) n =
       (case W of [] \<Rightarrow> files (fs ?s2) n | w # ws \<Rightarrow> Some (snd (last (w # ws))))"
      unfolding W_def by (rule Cons.IH[OF rest d disj])
    have kin: "k \<in> set (files_created f)" by (simp add: ks s2)
    have "grows (fs s1) (fs ?s2)" by (rule write_entry_fs(1))
    then have "grows (fs s1) (fs f)" using g2 by (rule grows_trans)
    from locate_mono[OF this m] have lf: "locate (fs f) ?p = Inr m" .
    have Wc: "written_to b f (e # es) n = (if m = n then e # W else W)"
      using kin lf by (auto simp: written_to_def e W_def)
    have old: "files (fs ?s2) n = (if m = n then Some x else files (fs s) n)"
      by (simp add: s2 a' f1(2))
    show ?thesis unfolding Wc IH old by (cases W) (simp_all add: e)
  next
    case (Inl err)
    note s2 = write_entry_bad[OF Inl, of v, folded e]
    have disj: "fst ` set es \<inter> set (files_created ?s2) = {}"
      using disj0 by (simp add: s2 f1(4))
    have IH: "files (fs f) n =
       (case W of [] \<Rightarrow> files (fs ?s2) n | w # ws \<Rightarrow> Some (snd (last (w # ws))))"
      unfolding W_def by (rule Cons.IH[OF rest d disj])
    have kout: "k \<notin> set (files_created f)"
      using ks kn ko by (auto simp: s2 f1(4))
    have Wc: "written_to b f (e # es) n = W"
      using kout by (simp add: written_to_def e W_def)
    have old: "files (fs ?s2) n = files (fs s) n"
      unfolding e using write_entry_bad(1)[OF Inl, of v] f1(2) by simp
    show ?thesis unfolding Wc IH old by (rule refl)
  qed
qed

lemma distinct_keys_sort: "distinct (map fst fd) \<Longrightarrow> distinct (map fst (sort fd))"
  by (simp add: distinct_map)

lemma create_project_structure_content:
  assumes "create_project_structure fd base_dir v fs0 = Inr out" "distinct (map fst fd)"
  shows "files (fs (final out)) n =
     (case written_to (parse_path base_dir) (final out) (sort fd) n of
        [] \<Rightarrow> files fs0 n
      | w # ws \<Rightarrow> Some (snd (last (w # ws))))"
proof -
  from assms(1) obtain fs1 where
    mk: "mkdir_p fs0 (parse_path base_dir) = Inr fs1" and
    run: "process_entries (parse_path base_dir) v
           \<lparr>fs = fs1, dirs_created = {}, files_created = [], printed = []\<rparr> (sort fd)
         = Inr (final out)"
    by (rule create_project_structure_run)
  from last_write[OF run distinct_keys_sort[OF assms(2)], of n] mkdir_p_result(3)[OF mk]
  show ?thesis by (simp split: list.splits)
qed


text \<open>
  C7.  The file system is a tree of directories and regular files in which no
  location is both (no symbolic links; permissions do not change, and what a run
  creates it may write again).  A run of the Materializer that returns can be
  repeated on the file system it leaves behind with the same mapping and root: the
  second run returns too (directories and files that exist already are no error),
  writes the same entries, leaves the same file contents and the same directories, and
  returns the same two counts.  After either run, a file to which the run wrote an
  entry holds the text of the last entry written to it, whatever it held before
  (existing files are overwritten); every other file is as it was.
\<close>

theorem materialize_twice:
  assumes "wf_fs fs0"
    and "create_project_structure fd base_dir v fs0 = Inr out1"
  shows "\<exists>out2. create_project_structure fd base_dir v (fs (final out1)) = Inr out2
     \<and> files (fs (final out2)) = files (fs (final out1))
     \<and> dirs (fs (final out2)) = dirs (fs (final out1))
     \<and> dirs_count out2 = dirs_count out1
     \<and> files_count out2 = files_count out1
     \<and> files_created (final out2) = files_created (final out1)
     \<and> (distinct (map fst fd) \<longrightarrow>
          (\<forall>n. files (fs (final out1)) n =
                 (case written_to (parse_path base_dir) (final out1) (sort fd) n of
                    [] \<Rightarrow> files fs0 n
                  | w # ws \<Rightarrow> Some (snd (last (w # ws)))))
        \<and> (\<forall>n. files (fs (final out2)) n =
                 (case written_to (parse_path base_dir) (final out2) (sort fd) n of
                    [] \<Rightarrow> files (fs (final out1)) n
                  | w # ws \<Rightarrow> Some (snd (last (w # ws))))))"
proof -
  let ?b = "parse_path base_dir"
  let ?f = "final out1"
  from assms(2) obtain fs1 where
    mk: "mkdir_p fs0 ?b = Inr fs1" and
    run: "process_entries ?b v
           \<lparr>fs = fs1, dirs_created = {}, files_created = [], printed = []\<rparr> (sort fd)
         = Inr ?f"
    and dc: "dirs_count out1 = card (dirs_created ?f)"
    and fc: "files_count out1 = length (files_created ?f)"
    by (rule create_project_structure_run)
  let ?s = "\<lparr>fs = fs1, dirs_created = {}, files_created = [], printed = []\<rparr>"
  let ?t = "\<lparr>fs = fs ?f, dirs_created = {}, files_created = [], printed = []\<rparr>"
  note m = mkdir_p_result[OF mk]
  from process_entries_grows[OF run] have g: "grows fs1 (fs ?f)" by simp
  from g m(1) have "is_dir (fs ?f) ?b" by (rule grows_is_dir)
  then have mk2: "mkdir_p (fs ?f) ?b = Inr (fs ?f)" by (rule mkdir_p_existing)
  have pe: "parents_exist ?b ?s" using m(1) by (simp add: parents_exist_def)
  have w: "wf_fs (fs ?s)" using m(4)[OF assms(1)] by simp
  have "\<exists>f'. process_entries ?b v ?t (sort fd) = Inr f' \<and> dirs_created f' = dirs_created ?f
     \<and> files_created f' = files_created ?f \<and> files (fs f') = files (fs ?f)
     \<and> dirs (fs f') = dirs (fs ?f)"
    by (rule rerun[OF run wf_parse_path pe w]) (simp_all add: same_shape_refl)
  then obtain f' where f': "process_entries ?b v ?t (sort fd) = Inr f'"
    "dirs_created f' = dirs_created ?f" "files_created f' = files_created ?f"
    "files (fs f') = files (fs ?f)" "dirs (fs f') = dirs (fs ?f)" by blast
  define out2 where "out2 = \<lparr>final = f', dirs_count = card (dirs_created f'),
      files_count = length (files_created f')\<rparr>"
  have run2: "create_project_structure fd base_dir v (fs ?f) = Inr out2"
    using mk2 f'(1) by (simp add: create_project_structure_def Let_def out2_def)
  have o2: "final out2 = f'" by (simp add: out2_def)
  have c1: "\<forall>n. files (fs (final out1)) n =
                 (case written_to ?b (final out1) (sort fd) n of
                    [] \<Rightarrow> files fs0 n
                  | w # ws \<Rightarrow> Some (snd (last (w # ws))))" if "distinct (map fst fd)"
    using create_project_structure_content[OF assms(2) that] by blast
  have c2: "\<forall>n. files (fs (final out2)) n =
                 (case written_to ?b (final out2) (sort fd) n of
                    [] \<Rightarrow> files (fs (final out1)) n
                  | w # ws \<Rightarrow> Some (snd (last (w # ws))))" if "distinct (map fst fd)"
    using create_project_structure_content[OF run2 that] by blast
  have "files (fs (final out2)) = files (fs ?f)" "dirs (fs (final out2)) = dirs (fs ?f)"
    "dirs_count out2 = dirs_count out1" "files_count out2 = files_count out1"
    "files_created (final out2) = files_created ?f"
    using f' dc fc by (simp_all add: out2_def)
  with run2 c1 c2 show ?thesis by blast
qed

text \<open>A target directory that holds a write-protected \<^verbatim>\<open>a.txt\<close> and a writable
  \<^verbatim>\<open>b.txt\<close> with the text \<^verbatim>\<open>stale\<close>: both runs fail on the first and overwrite
  the second.\<close>

theorem materialize_twice_witness:
  "wf_fs stale_fs \<and> distinct (map fst two_top_files)
   \<and> files stale_fs [''work'', ''out'', ''b.txt''] = Some ''stale''
   \<and> (\<exists>out1 out2. create_project_structure two_top_files ''out'' True stale_fs = Inr out1
        \<and> create_project_structure two_top_files ''out'' True (fs (final out1)) = Inr out2
        \<and> files (fs (final out2)) = files (fs (final out1))
        \<and> dirs (fs (final out2)) = dirs (fs (final out1))
        \<and> dirs_count out2 = dirs_count out1
        \<and> files_count out2 = files_count out1
        \<and> files_created (final out2) = files_created (final out1)
        \<and> files_count out1 = 1
        \<and> files_created (final out1) = [''b.txt'']
        \<and> written_to (parse_path ''out'') (final out1) (sort two_top_files)
             [''work'', ''out'', ''b.txt''] = [(''b.txt'', ''y'')]
        \<and> written_to (parse_path ''out'') (final out1) (sort two_top_files)
             [''work'', ''out'', ''a.txt''] = []
        \<and> files (fs (final out1)) [''work'', ''out'', ''a.txt''] = Some ''old''
        \<and> files (fs (final out1)) [''work'', ''out'', ''b.txt''] = Some ''y''
        \<and> files (fs (final out2)) [''work'', ''out'', ''b.txt''] = Some ''y'')"
proof -
  have w: "wf_fs stale_fs"
    by (auto simp: wf_fs_def stale_fs_def dir_at_def file_at_def)
  have d: "distinct (map fst two_top_files)" by (simp add: two_top_files_def)
  have s: "files stale_fs [''work'', ''out'', ''b.txt''] = Some ''stale''"
    by (simp add: stale_fs_def)
  have s': "files stale_fs [''work'', ''out'', ''a.txt''] = Some ''old''"
    by (simp add: stale_fs_def)
  have "(case create_project_structure two_top_files ''out'' True stale_fs of
       Inl e \<Rightarrow> False
     | Inr out \<Rightarrow> files_count out = 1 \<and> files_created (final out) = [''b.txt'']
         \<and> written_to (parse_path ''out'') (final out) (sort two_top_files)
              [''work'', ''out'', ''b.txt''] = [(''b.txt'', ''y'')]
         \<and> written_to (parse_path ''out'') (final out) (sort two_top_files)
              [''work'', ''out'', ''a.txt''] = [])"
    by code_simp
  then obtain out1 where
    o: "create_project_structure two_top_files ''out'' True stale_fs = Inr out1"
    and o1: "files_count out1 = 1" and o2: "files_created (final out1) = [''b.txt'']"
    and o3: "written_to (parse_path ''out'') (final out1) (sort two_top_files)
              [''work'', ''out'', ''b.txt''] = [(''b.txt'', ''y'')]"
    and o4: "written_to (parse_path ''out'') (final out1) (sort two_top_files)
              [''work'', ''out'', ''a.txt''] = []"
    by (cases "create_project_structure two_top_files ''out'' True stale_fs") simp_all
  from materialize_twice[OF w o] d obtain out2 where r:
    "create_project_structure two_top_files ''out'' True (fs (final out1)) = Inr out2"
    "files (fs (final out2)) = files (fs (final out1))"
    "dirs (fs (final out2)) = dirs (fs (final out1))"
    "dirs_count out2 = dirs_count out1" "files_count out2 = files_count out1"
    "files_created (final out2) = files_created (final out1)"
    and c: "\<forall>n. files (fs (final out1)) n =
                 (case written_to (parse_path ''out'') (final out1) (sort two_top_files) n of
                    [] \<Rightarrow> files stale_fs n
                  | w # ws \<Rightarrow> Some (snd (last (w # ws))))"
    by blast
  from c o3 have b1: "files (fs (final out1)) [''work'', ''out'', ''b.txt''] = Some ''y''"
    by simp
  from c o4 s' have a1: "files (fs (final out1)) [''work'', ''out'', ''a.txt''] = Some ''old''"
    by simp
  from b1 r(2) have b2: "files (fs (final out2)) [''work'', ''out'', ''b.txt''] = Some ''y''"
    by simp
  from o r o1 o2 o3 o4 a1 b1 b2 have "\<exists>out1 out2.
      create_project_structure two_top_files ''out'' True stale_fs = Inr out1
        \<and> create_project_structure two_top_files ''out'' True (fs (final out1)) = Inr out2
        \<and> files (fs (final out2)) = files (fs (final out1))
        \<and> dirs (fs (final out2)) = dirs (fs (final out1))
        \<and> dirs_count out2 = dirs_count out1
        \<and> files_count out2 = files_count out1
        \<and> files_created (final out2) = files_created (final out1)
        \<and> files_count out1 = 1
        \<and> files_created (final out1) = [''b.txt'']
        \<and> written_to (parse_path ''out'') (final out1) (sort two_top_files)
             [''work'', ''out'', ''b.txt''] = [(''b.txt'', ''y'')]
        \<and> written_to (parse_path ''out'') (final out1) (sort two_top_files)
             [''work'', ''out'', ''a.txt''] = []
        \<and> files (fs (final out1)) [''work'', ''out'', ''a.txt''] = Some ''old''
        \<and> files (fs (final out1)) [''work'', ''out'', ''b.txt''] = Some ''y''
        \<and> files (fs (final out2)) [''work'', ''out'', ''b.txt''] = Some ''y''"
    by blast
  with w d s show ?thesis by blast
qed

section \<open>The heading strategy on a heading line\<close>

lemma leads_Cons [simp]: "leads x (y # ys) \<longleftrightarrow> y = x"
  by (simp add: leads_def)

lemma leads_Nil [simp]: "\<not> leads x []"
  by (simp add: leads_def)

lemma leads_append: "leads x A \<Longrightarrow> leads x (A @ B)"
  by (cases A) simp_all

lemma concat_skip:
  "\<forall>y \<in> set xs. F y = [] \<Longrightarrow> concat (map F (xs @ ys)) = concat (map F ys)"
  by (induction xs) simp_all

lemma leads_concat:
  "\<forall>y \<in> set xs. F y = [] \<Longrightarrow> leads x (F c) \<Longrightarrow> leads x (concat (map F (xs @ c # cs)))"
  by (simp only: concat_skip) (simp add: leads_append)

lemma leads_concat_hd: "leads x (F c) \<Longrightarrow> leads x (concat (map F (c # cs)))"
  by (simp add: leads_append)

lemma match_here_leads: "leads x (run r (s, \<lambda>_. [])) \<Longrightarrow> match_here r s = Some x"
  by (cases "run r (s, \<lambda>_. [])") (simp_all add: match_here_def)

lemma run_cats_Cons: "run (cats (a # rs)) st = concat (map (run (cats rs)) (run a st))"
  by (simp add: cats_def)

lemma run_cats_Nil: "run (cats []) st = [st]"
  by (simp add: cats_def)

lemma run_lit: "run (lit x) (s, g) = (if prefix x s then [(drop (length x) s, g)] else [])"
proof (induction x arbitrary: s)
  case Nil
  then show ?case by (simp add: lit_def cats_def)
next
  case (Cons c x)
  have "run (lit (c # x)) (s, g) = concat (map (run (lit x)) (run (Atom (Is c)) (s, g)))"
    by (simp add: lit_def cats_def)
  then show ?case using Cons.IH by (cases s) auto
qed

lemma greedy_suffixes:
  "list_all p w \<Longrightarrow> stops p s \<Longrightarrow> greedy p (w @ s) = map (\<lambda>u. u @ s) (suffixes w)"
proof (induction w)
  case Nil
  then show ?case by (cases s) (simp_all add: stops_def)
next
  case (Cons x w)
  then show ?case by simp
qed

lemma lazy_suffixes: "lazy (\<lambda>_. True) s = rev (suffixes s)"
  by (induction s) simp_all

lemma run_ext_alts:
  "xs \<noteq> [] \<Longrightarrow>
   run (alts (map lit xs)) (s, g)
     = map (\<lambda>x. (drop (length x) s, g)) (filter (\<lambda>x. prefix x s) xs)"
proof (induction xs rule: induct_list012)
  case 1
  then show ?case by simp
next
  case (2 x)
  then show ?case by (simp add: run_lit)
next
  case (3 x y zs)
  then show ?case by (simp add: run_lit)
qed

lemma run_ext:
  "run ext (s, g) = map (\<lambda>x. (drop (length x) s, g)) (filter (\<lambda>x. prefix x s) extensions)"
  unfolding ext_def by (rule run_ext_alts) (simp add: extensions_def)


lemma concat_singletons: "concat (map (\<lambda>x. [x]) xs) = xs"
  by (induction xs) simp_all

lemma run_cats_single: "run (cats [r]) st = run r st"
proof -
  have "run Eps = (\<lambda>x. [x])" by (rule ext) simp
  then show ?thesis by (simp add: cats_def concat_singletons)
qed

lemma tl_suffixes_nonempty: "u \<in> set (tl (suffixes c)) \<Longrightarrow> suffix u c \<and> u \<noteq> []"
proof -
  assume u: "u \<in> set (tl (suffixes c))"
  have d: "distinct (suffixes c)" by (rule distinct_suffixes)
  have s: "suffixes c = [] # tl (suffixes c)"
    by (metis hd_suffixes list.collapse suffixes_not_Nil)
  from u have "u \<in> set (suffixes c)" by (metis list.set_sel(2) suffixes_not_Nil)
  moreover from d s u have "u \<noteq> []" by (metis distinct.simps(2))
  ultimately show ?thesis by simp
qed

lemma rev_suffixes_hd: "rev (suffixes t) = t # rev (butlast (suffixes t))"
  by (metis append_butlast_last_id last_suffixes rev_eq_Cons_iff rev_rev_ident suffixes_not_Nil)

lemma no_early_fence:
  assumes "\<not> contains ''```'' (c @ ''``'')" "suffix u c" "u \<noteq> []"
  shows "\<not> prefix ''```'' (u @ ''```'' @ post)"
proof
  assume p: "prefix ''```'' (u @ ''```'' @ post)"
  have "prefix (u @ ''``'') (u @ ''```'' @ post)" by simp
  moreover from assms(3) have "length ''```'' \<le> length (u @ ''``'')" by (cases u) simp_all
  ultimately have "prefix ''```'' (u @ ''``'')" using p by (rule prefix_length_prefix[rotated])
  then obtain r where r: "u @ ''``'' = ''```'' @ r" by (auto simp: prefix_def)
  from assms(2) obtain v where "c = v @ u" by (auto simp: suffix_def)
  with r have "c @ ''``'' = v @ ''```'' @ r" by simp
  then have "contains ''```'' (c @ ''``'')" unfolding contains_iff by blast
  with assms(1) show False by simp
qed

lemma run_group_lazy:
  "run (Group n (RepLazy AnyCh)) (s, g)
     = map (\<lambda>r. (r, g(n := take (length s - length r) s))) (rev (suffixes s))"
proof -
  have "accepts AnyCh = (\<lambda>_. True)" by (rule ext) simp
  then show ?thesis by (simp add: lazy_suffixes comp_def)
qed

lemma lazy_stage:
  assumes early: "\<And>u. suffix u c \<Longrightarrow> u \<noteq> [] \<Longrightarrow> \<not> prefix f (u @ f @ post)"
  shows "leads (post, g(n := c))
           (run (cats [Group n (RepLazy AnyCh), lit f]) (c @ f @ post, g))"
proof -
  define t where "t = f @ post"
  define s where "s = c @ t"
  define h :: "string \<Rightarrow> mstate"
    where "h = (\<lambda>r. (r, g(n := take (length s - length r) s)))"
  define F where "F = run (cats [lit f])"
  define xs where "xs = rev (map (\<lambda>u. u @ t) (tl (suffixes c)))"
  have cand: "rev (suffixes s) = xs @ t # rev (butlast (suffixes t))"
    unfolding s_def xs_def suffixes_append[of c t] rev_append
    by (subst rev_suffixes_hd[of t]) simp
  have g3: "run (Group n (RepLazy AnyCh)) (s, g) = map h (rev (suffixes s))"
    unfolding h_def by (rule run_group_lazy)
  have early': "\<forall>y \<in> set (map h xs). F y = []"
  proof
    fix y assume "y \<in> set (map h xs)"
    then obtain u where u: "u \<in> set (tl (suffixes c))" and y: "y = h (u @ t)"
      unfolding xs_def by auto
    from tl_suffixes_nonempty[OF u] early have "\<not> prefix f (u @ t)"
      unfolding t_def by blast
    then show "F y = []" unfolding y F_def h_def run_cats_single by (simp add: run_lit)
  qed
  have "h t = (t, g(n := c))" unfolding h_def s_def by simp
  then have here: "leads (post, g(n := c)) (F (h t))"
    unfolding F_def run_cats_single t_def by (simp add: run_lit)
  have eq: "run (cats [Group n (RepLazy AnyCh), lit f]) (s, g)
      = concat (map F (map h xs @ h t # map h (rev (butlast (suffixes t)))))"
    unfolding run_cats_Cons g3 cand F_def by simp
  have "leads (post, g(n := c))
      (concat (map F (map h xs @ h t # map h (rev (butlast (suffixes t))))))"
    by (rule leads_concat[OF early' here])
  then have "leads (post, g(n := c)) (run (cats [Group n (RepLazy AnyCh), lit f]) (s, g))"
    by (simp only: eq)
  then show ?thesis unfolding s_def t_def .
qed

lemma body_stage:
  assumes "\<not> contains ''```'' (c @ ''``'')"
  shows "leads (post, g(3 := c))
           (run (cats [Group 3 (RepLazy AnyCh), lit ''```'']) (c @ ''```'' @ post, g))"
  by (rule lazy_stage) (rule no_early_fence[OF assms])


lemma run_atom_cats:
  "run (cats (Atom (Is a) # rs)) (s, g)
     = (case s of [] \<Rightarrow> [] | x # xs \<Rightarrow> if x = a then run (cats rs) (xs, g) else [])"
  by (cases s) (simp_all add: run_cats_Cons)

lemma butlast_suffixes: "u \<in> set (butlast (suffixes w)) \<Longrightarrow> suffix u w \<and> u \<noteq> w"
proof -
  assume u: "u \<in> set (butlast (suffixes w))"
  have s: "suffixes w = butlast (suffixes w) @ [w]"
    by (metis append_butlast_last_id last_suffixes suffixes_not_Nil)
  have "distinct (butlast (suffixes w) @ [w])" using distinct_suffixes[of w] s by simp
  with u have "u \<noteq> w" by auto
  moreover from u have "u \<in> set (suffixes w)" by (rule in_set_butlastD)
  ultimately show ?thesis by simp
qed

lemma greedy_candidates:
  assumes "list_all p (w1 @ w2)" "stops p R"
  shows "\<exists>more. map (\<lambda>r. (r, g)) (greedy p ((w1 @ w2) @ R))
     = map (\<lambda>u. (u @ R, g)) (butlast (suffixes w2)) @ (w2 @ R, g) # more"
proof -
  have s: "suffixes w2 = butlast (suffixes w2) @ [w2]"
    by (metis append_butlast_last_id last_suffixes suffixes_not_Nil)
  have "suffixes (w1 @ w2)
      = butlast (suffixes w2) @ w2 # map (\<lambda>x. x @ w2) (tl (suffixes w1))"
    unfolding suffixes_append[of w1 w2] by (subst s) simp
  then have "map (\<lambda>r. (r, g)) (greedy p ((w1 @ w2) @ R))
     = map (\<lambda>u. (u @ R, g)) (butlast (suffixes w2)) @ (w2 @ R, g)
         # map (\<lambda>u. (u @ R, g)) (map (\<lambda>x. x @ w2) (tl (suffixes w1)))"
    unfolding greedy_suffixes[OF assms] by (simp add: comp_def)
  then show ?thesis by blast
qed

lemma rep_stage:
  assumes "list_all (accepts c) (w1 @ w2)" "stops (accepts c) R"
    and fail: "\<And>u. suffix u w2 \<Longrightarrow> u \<noteq> w2 \<Longrightarrow> K (u @ R, g) = []"
    and ok: "leads x (K (w2 @ R, g))"
  shows "leads x (concat (map K (run (Rep c) ((w1 @ w2) @ R, g))))"
proof -
  from greedy_candidates[OF assms(1,2), of g] obtain more where
    m: "map (\<lambda>r. (r, g)) (greedy (accepts c) ((w1 @ w2) @ R))
     = map (\<lambda>u. (u @ R, g)) (butlast (suffixes w2)) @ (w2 @ R, g) # more" by blast
  have "\<forall>y \<in> set (map (\<lambda>u. (u @ R, g)) (butlast (suffixes w2))). K y = []"
    using fail by (auto dest: butlast_suffixes)
  from leads_concat[OF this ok, of more] show ?thesis
    by (simp only: run.simps m)
qed

lemma rep1_stage:
  assumes "accepts c a" "list_all (accepts c) (w1 @ w2)" "stops (accepts c) R"
    and fail: "\<And>u. suffix u w2 \<Longrightarrow> u \<noteq> w2 \<Longrightarrow> K (u @ R, g) = []"
    and ok: "leads x (K (w2 @ R, g))"
  shows "leads x (concat (map K (run (Rep1 c) (a # (w1 @ w2) @ R, g))))"
proof -
  from greedy_candidates[OF assms(2,3), of g] obtain more where
    m: "map (\<lambda>r. (r, g)) (greedy (accepts c) ((w1 @ w2) @ R))
     = map (\<lambda>u. (u @ R, g)) (butlast (suffixes w2)) @ (w2 @ R, g) # more" by blast
  have "\<forall>y \<in> set (map (\<lambda>u. (u @ R, g)) (butlast (suffixes w2))). K y = []"
    using fail by (auto dest: butlast_suffixes)
  from leads_concat[OF this ok, of more] assms(1) show ?thesis
    by (simp only: run.simps m list.case if_True)
qed


lemma isspace_NL: "isspace NL"
  by code_simp

lemma backtick_not_space: "\<not> isspace (CHR ''`'')"
  by code_simp

lemma strip_leading: "list_all isspace w \<Longrightarrow> strip (w @ s) = strip s"
  by (simp add: strip_def list_all_iff)

lemma contains_suffix: "contains f (u @ z) \<Longrightarrow> suffix u c \<Longrightarrow> contains f (c @ z)"
  unfolding contains_iff suffix_def by (metis append.assoc)

lemma space_stage:
  assumes nf: "\<not> contains ''```'' (body @ ''``'')"
  shows "\<exists>c. leads (post, g(3 := c))
           (run (cats [Rep SpaceCh, Atom (Is NL), Group 3 (RepLazy AnyCh), lit ''```''])
              (NL # body @ ''```'' @ post, g))
         \<and> strip c = strip body"
proof -
  define tw where "tw = takeWhile isspace body"
  define B where "B = dropWhile isspace body"
  define R where "R = B @ ''```'' @ post"
  define K where "K = run (cats [Atom (Is NL), Group 3 (RepLazy AnyCh), lit ''```''])"
  have body: "body = tw @ B" by (simp add: tw_def B_def)
  have tws: "list_all isspace tw" unfolding tw_def list_all_iff by (auto dest: set_takeWhileD)
  have "NL \<in> set (NL # tw)" by simp
  from split_list_last[OF this] obtain W1 W2 where
    W: "NL # tw = W1 @ NL # W2" and last: "NL \<notin> set W2" by blast
  have all: "list_all (accepts SpaceCh) (W1 @ NL # W2)"
    unfolding W[symmetric] using tws isspace_NL by (simp add: list_all_iff)
  then have W2s: "list_all isspace W2" by (simp add: list_all_iff)
  have st: "stops (accepts SpaceCh) R"
  proof (cases B)
    case Nil
    then show ?thesis by (simp add: R_def stops_def backtick_not_space)
  next
    case (Cons b B')
    then have "\<not> isspace b" using hd_dropWhile[of isspace body] by (simp add: B_def)
    with Cons show ?thesis by (simp add: R_def stops_def)
  qed
  have W2tw: "suffix W2 tw"
  proof (cases W1)
    case Nil
    with W show ?thesis by simp
  next
    case (Cons a W1')
    with W have "tw = W1' @ NL # W2" by simp
    then show ?thesis by (simp add: suffix_def)
  qed
  then have sb: "suffix (W2 @ B) body" unfolding body by simp
  have nf': "\<not> contains ''```'' ((W2 @ B) @ ''``'')"
    using nf contains_suffix[OF _ sb] by blast
  have fail: "K (u @ R, g) = []" if "suffix u (NL # W2)" "u \<noteq> NL # W2" for u
  proof -
    from that have u: "suffix u W2" by (auto simp: suffix_Cons)
    show ?thesis
    proof (cases u)
      case Nil
      from st have "hd R \<noteq> NL \<or> R = []" using isspace_NL
        by (cases R) (auto simp: stops_def)
      then show ?thesis unfolding Nil K_def by (cases R) (auto simp: run_atom_cats)
    next
      case (Cons a u')
      with u have "a \<in> set W2" by (auto simp: suffix_def)
      with last have "a \<noteq> NL" by auto
      then show ?thesis unfolding Cons K_def by (simp add: run_atom_cats)
    qed
  qed
  have "K ((NL # W2) @ R, g)
      = run (cats [Group 3 (RepLazy AnyCh), lit ''```'']) ((W2 @ B) @ ''```'' @ post, g)"
    unfolding K_def R_def by (simp add: run_atom_cats)
  with body_stage[OF nf', of post g]
  have ok: "leads (post, g(3 := W2 @ B)) (K ((NL # W2) @ R, g))" by simp
  have "leads (post, g(3 := W2 @ B))
      (concat (map K (run (Rep SpaceCh) ((W1 @ NL # W2) @ R, g))))"
  proof (rule rep_stage[where ?w1.0 = W1 and ?w2.0 = "NL # W2"])
    show "list_all (accepts SpaceCh) (W1 @ NL # W2)" by (rule all)
    show "stops (accepts SpaceCh) R" by (rule st)
    show "K (u @ R, g) = []" if "suffix u (NL # W2)" "u \<noteq> NL # W2" for u
      using that by (rule fail)
    show "leads (post, g(3 := W2 @ B)) (K ((NL # W2) @ R, g))" by (rule ok)
  qed
  moreover have "(W1 @ NL # W2) @ R = NL # body @ ''```'' @ post"
    unfolding W[symmetric] R_def body by simp
  ultimately have "leads (post, g(3 := W2 @ B))
      (run (cats [Rep SpaceCh, Atom (Is NL), Group 3 (RepLazy AnyCh), lit ''```''])
         (NL # body @ ''```'' @ post, g))"
    unfolding K_def by (simp only: run_cats_Cons)
  moreover have "strip (W2 @ B) = strip body"
    unfolding body using tws W2s by (simp add: strip_leading)
  ultimately show ?thesis by blast
qed


lemma NL_not_word: "\<not> isword NL"
  by code_simp

lemma run_opt_cats:
  "run (cats (Opt a # rs)) st = run (cats (a # rs)) st @ run (cats rs) st"
  by (simp add: run_cats_Cons)

lemma run_lit_cats: "run (cats (lit x # rs)) (x @ s, g) = run (cats rs) (s, g)"
  by (simp add: run_cats_Cons run_lit)

lemma fence_stage:
  assumes tag: "list_all isword tag"
    and nf: "\<not> contains ''```'' (body @ ''``'')"
  shows "\<exists>c. leads (post, g(3 := c))
           (run fence (''```'' @ tag @ NL # body @ ''```'' @ post, g))
         \<and> strip c = strip body"
proof -
  define R where "R = NL # body @ ''```'' @ post"
  define K where "K = run (cats [Rep SpaceCh, Atom (Is NL), Group 3 (RepLazy AnyCh), lit ''```''])"
  from space_stage[OF nf, of post g] obtain c where
    c: "leads (post, g(3 := c)) (K (R, g))" and sc: "strip c = strip body"
    unfolding K_def R_def by blast
  have f: "run fence (''```'' @ tag @ R, g)
      = concat (map K (run (Rep1 WordCh) (tag @ R, g))) @ K (tag @ R, g)"
    unfolding fence_def K_def
    by (simp only: run_lit_cats run_opt_cats) (simp only: run_cats_Cons)
  have "leads (post, g(3 := c)) (run fence (''```'' @ tag @ R, g))"
  proof (cases tag)
    case Nil
    show ?thesis
    proof (subst f)
      have "run (Rep1 WordCh) (tag @ R, g) = []"
        unfolding Nil R_def using NL_not_word by simp
      moreover have "K (tag @ R, g) = K (R, g)" by (simp add: Nil)
      ultimately show "leads (post, g(3 := c))
          (concat (map K (run (Rep1 WordCh) (tag @ R, g))) @ K (tag @ R, g))"
        using c by simp
    qed
  next
    case (Cons a l)
    have "leads (post, g(3 := c)) (concat (map K (run (Rep1 WordCh) (a # (l @ []) @ R, g))))"
    proof (rule rep1_stage)
      show "accepts WordCh a" using tag Cons by simp
      show "list_all (accepts WordCh) (l @ [])" using tag Cons by (simp add: list_all_iff)
      show "stops (accepts WordCh) R" unfolding R_def stops_def using NL_not_word by simp
      show "K (u @ R, g) = []" if "suffix u []" "u \<noteq> []" for u using that by simp
      show "leads (post, g(3 := c)) (K ([] @ R, g))" using c by simp
    qed
    then have "leads (post, g(3 := c)) (concat (map K (run (Rep1 WordCh) (tag @ R, g))))"
      by (simp add: Cons)
    then show ?thesis by (subst f) (rule leads_append)
  qed
  with sc show ?thesis unfolding R_def by blast
qed


lemma backtick_not_NL: "CHR ''`'' \<noteq> NL"
  by code_simp

lemma tail_stage:
  assumes tag: "list_all isword tag"
    and nf: "\<not> contains ''```'' (body @ ''``'')"
  shows "\<exists>c. leads (post, g(3 := c))
           (run (cats [Rep SpaceCh, Atom (Is NL), fence])
              (NL # ''```'' @ tag @ NL # body @ ''```'' @ post, g))
         \<and> strip c = strip body"
proof -
  define R where "R = ''```'' @ tag @ NL # body @ ''```'' @ post"
  define K where "K = run (cats [Atom (Is NL), fence])"
  from fence_stage[OF tag nf, of post g] obtain c where
    c: "leads (post, g(3 := c)) (run fence (R, g))" and sc: "strip c = strip body"
    unfolding R_def by blast
  have "leads (post, g(3 := c)) (concat (map K (run (Rep SpaceCh) (([] @ [NL]) @ R, g))))"
  proof (rule rep_stage)
    show "list_all (accepts SpaceCh) ([] @ [NL])" using isspace_NL by simp
    show "stops (accepts SpaceCh) R" unfolding R_def stops_def using backtick_not_space by simp
    show "K (u @ R, g) = []" if "suffix u [NL]" "u \<noteq> [NL]" for u
    proof -
      from that have "u = []" by (auto simp: suffix_Cons)
      then show ?thesis unfolding K_def R_def using backtick_not_NL
        by (simp add: run_atom_cats)
    qed
    show "leads (post, g(3 := c)) (K ([NL] @ R, g))"
      unfolding K_def using c by (simp add: run_atom_cats run_cats_single)
  qed
  then have "leads (post, g(3 := c))
      (run (cats [Rep SpaceCh, Atom (Is NL), fence]) (NL # R, g))"
    unfolding K_def by (simp add: run_cats_Cons)
  with sc show ?thesis unfolding R_def by blast
qed

lemma tail_fail:
  assumes "\<not> isspace x"
  shows "run (cats [Rep SpaceCh, Atom (Is NL), fence]) (x # rest, g) = []"
proof -
  from assms isspace_NL have "x \<noteq> NL" by auto
  with assms show ?thesis by (simp add: run_cats_Cons)
qed

lemma extension_chars:
  "list_all (\<lambda>x. list_all (\<lambda>c. c \<noteq> CHR ''.'' \<and> c \<noteq> NL \<and> \<not> isspace c) x) extensions"
  by code_simp

lemma extension_char:
  "x \<in> set extensions \<Longrightarrow> c \<in> set x \<Longrightarrow> c \<noteq> CHR ''.'' \<and> c \<noteq> NL \<and> \<not> isspace c"
  using extension_chars by (auto simp: list_all_iff)

lemma shorter_extension:
  assumes y: "y \<in> set extensions" and e: "e \<in> set extensions"
    and p: "prefix y (e @ NL # tail)" and ne: "y \<noteq> e"
  shows "\<exists>c rest. drop (length y) (e @ NL # tail) = c # rest \<and> \<not> isspace c"
proof -
  from p have "prefix y e \<or> (\<exists>z. y = e @ z \<and> z \<noteq> [] \<and> prefix z (NL # tail))"
    by (auto simp: prefix_append)
  then show ?thesis
  proof
    assume "prefix y e"
    with ne obtain c r where er: "e = y @ c # r"
      by (metis append_Nil2 neq_Nil_conv prefix_def)
    then have "c \<in> set e" by simp
    with e have "\<not> isspace c" by (auto dest: extension_char)
    moreover have "drop (length y) (e @ NL # tail) = c # r @ NL # tail" by (simp add: er)
    ultimately show ?thesis by blast
  next
    assume "\<exists>z. y = e @ z \<and> z \<noteq> [] \<and> prefix z (NL # tail)"
    then obtain z where "y = e @ z" "z \<noteq> []" "prefix z (NL # tail)" by blast
    then have "NL \<in> set y" by (cases z) (auto simp: prefix_Cons)
    with y show ?thesis by (auto dest: extension_char)
  qed
qed


lemma run_group_ext:
  "run (Group 2 ext) (E, g)
     = map (\<lambda>x. (drop (length x) E, g(2 := x))) (filter (\<lambda>x. prefix x E) extensions)"
proof -
  have "take (length E - length (drop (length x) E)) E = x" if "prefix x E" for x
  proof -
    from that obtain r where "E = x @ r" by (auto simp: prefix_def)
    then show ?thesis by simp
  qed
  then have "map (\<lambda>x. (drop (length x) E,
                g(2 := take (length E - length (drop (length x) E)) E)))
        (filter (\<lambda>x. prefix x E) extensions)
      = map (\<lambda>x. (drop (length x) E, g(2 := x))) (filter (\<lambda>x. prefix x E) extensions)"
    by (intro map_cong) simp_all
  then show ?thesis by (simp add: run_ext comp_def)
qed

lemma inner_candidates:
  assumes stem: "NL \<notin> set (a # stem')" and e: "e \<in> set extensions"
  shows "\<exists>more. run (cats [Rep1 (IsNot NL), Atom (Is (CHR ''.'')), Group 2 ext])
                  (a # (stem' @ CHR ''.'' # e) @ NL # tail, g)
      = map (\<lambda>x. (drop (length x) (e @ NL # tail), g(2 := x)))
          (filter (\<lambda>x. prefix x (e @ NL # tail)) extensions) @ more"
proof -
  define R where "R = NL # tail"
  define G where "G = run (cats [Atom (Is (CHR ''.'')), Group 2 ext])"
  have dn: "CHR ''.'' \<noteq> NL" by code_simp
  have ne: "NL \<notin> set e" using e by (auto dest: extension_char)
  have all: "list_all (accepts (IsNot NL)) (stem' @ CHR ''.'' # e)"
    using stem ne dn by (auto simp: list_all_iff)
  have st: "stops (accepts (IsNot NL)) R" by (simp add: R_def stops_def)
  from greedy_candidates[OF all st, of g] obtain more where
    m: "map (\<lambda>r. (r, g)) (greedy (accepts (IsNot NL)) ((stem' @ CHR ''.'' # e) @ R))
     = map (\<lambda>u. (u @ R, g)) (butlast (suffixes (CHR ''.'' # e)))
         @ ((CHR ''.'' # e) @ R, g) # more" by blast
  have r1: "run (Rep1 (IsNot NL)) (a # (stem' @ CHR ''.'' # e) @ R, g)
     = map (\<lambda>u. (u @ R, g)) (butlast (suffixes (CHR ''.'' # e)))
         @ ((CHR ''.'' # e) @ R, g) # more"
  proof -
    from stem have "a \<noteq> NL" by auto
    then have "run (Rep1 (IsNot NL)) (a # (stem' @ CHR ''.'' # e) @ R, g)
      = map (\<lambda>r. (r, g)) (greedy (accepts (IsNot NL)) ((stem' @ CHR ''.'' # e) @ R))"
      by simp
    with m show ?thesis by (simp only:)
  qed
  have early: "\<forall>y \<in> set (map (\<lambda>u. (u @ R, g)) (butlast (suffixes (CHR ''.'' # e)))). G y = []"
  proof
    fix y assume "y \<in> set (map (\<lambda>u. (u @ R, g)) (butlast (suffixes (CHR ''.'' # e))))"
    then obtain u where u: "u \<in> set (butlast (suffixes (CHR ''.'' # e)))"
      and y: "y = (u @ R, g)" by auto
    from butlast_suffixes[OF u] have su: "suffix u e" by (auto simp: suffix_Cons)
    show "G y = []"
    proof (cases u)
      case Nil
      then show ?thesis unfolding y G_def R_def using dn by (simp add: run_atom_cats)
    next
      case (Cons c u')
      with su have "c \<in> set e" by (auto simp: suffix_def)
      with e have "c \<noteq> CHR ''.''" by (auto dest: extension_char)
      then show ?thesis unfolding y G_def Cons by (simp add: run_atom_cats)
    qed
  qed
  have here: "G ((CHR ''.'' # e) @ R, g)
      = map (\<lambda>x. (drop (length x) (e @ R), g(2 := x)))
          (filter (\<lambda>x. prefix x (e @ R)) extensions)"
    unfolding G_def
    by (simp only: append_Cons run_atom_cats list.case if_True run_cats_single run_group_ext
          refl)
  have "run (cats [Rep1 (IsNot NL), Atom (Is (CHR ''.'')), Group 2 ext])
          (a # (stem' @ CHR ''.'' # e) @ R, g)
      = concat (map G (map (\<lambda>u. (u @ R, g)) (butlast (suffixes (CHR ''.'' # e)))
         @ ((CHR ''.'' # e) @ R, g) # more))"
    unfolding G_def by (simp only: run_cats_Cons r1)
  also have "\<dots> = G ((CHR ''.'' # e) @ R, g) @ concat (map G more)"
    by (simp only: concat_skip[OF early]) simp
  finally have "run (cats [Rep1 (IsNot NL), Atom (Is (CHR ''.'')), Group 2 ext])
          (a # (stem' @ CHR ''.'' # e) @ R, g)
      = map (\<lambda>x. (drop (length x) (e @ R), g(2 := x)))
          (filter (\<lambda>x. prefix x (e @ R)) extensions) @ concat (map G more)"
    by (simp only: here)
  then show ?thesis unfolding R_def by blast
qed


lemma name_stage:
  assumes stem: "NL \<notin> set (a # stem')" and e: "e \<in> set extensions"
    and ok: "leads x (K (NL # tail, g(2 := e, 1 := a # stem' @ CHR ''.'' # e)))"
    and fail: "\<And>c rest g'. \<not> isspace c \<Longrightarrow> K (c # rest, g') = []"
  shows "leads x (concat (map K
           (run (Group 1 (cats [Rep1 (IsNot NL), Atom (Is (CHR ''.'')), Group 2 ext]))
              (a # (stem' @ CHR ''.'' # e) @ NL # tail, g))))"
proof -
  define s where "s = a # (stem' @ CHR ''.'' # e) @ NL # tail"
  define E where "E = e @ NL # tail"
  define h :: "string \<Rightarrow> mstate" where "h = (\<lambda>x. (drop (length x) E, g(2 := x)))"
  define wrap :: "mstate \<Rightarrow> mstate"
    where "wrap = (\<lambda>(r, g'). (r, g'(1 := take (length s - length r) s)))"
  define F where "F = filter (\<lambda>x. prefix x E) extensions"
  from inner_candidates[OF stem e, of tail g] obtain more where
    inner: "run (cats [Rep1 (IsNot NL), Atom (Is (CHR ''.'')), Group 2 ext]) (s, g)
      = map h F @ more"
    unfolding s_def h_def F_def E_def by blast
  have "e \<in> set F" using e by (simp add: F_def E_def)
  from split_list_first[OF this] obtain ys zs where
    F: "F = ys @ e # zs" and first: "e \<notin> set ys" by blast
  have grp: "run (Group 1 (cats [Rep1 (IsNot NL), Atom (Is (CHR ''.'')), Group 2 ext])) (s, g)
      = map (wrap \<circ> h) ys @ wrap (h e) # map wrap (map h zs @ more)"
    unfolding wrap_def by (simp add: inner F)
  have early: "\<forall>y \<in> set (map (wrap \<circ> h) ys). K y = []"
  proof
    fix y assume "y \<in> set (map (wrap \<circ> h) ys)"
    then obtain v where v: "v \<in> set ys" and y: "y = wrap (h v)" by auto
    from v F have "v \<in> set F" by simp
    then have ve: "v \<in> set extensions" and pv: "prefix v (e @ NL # tail)"
      by (simp_all add: F_def E_def)
    from v first have "v \<noteq> e" by auto
    from shorter_extension[OF ve e pv this] obtain c rest where
      "drop (length v) E = c # rest" "\<not> isspace c" unfolding E_def by blast
    then show "K y = []" unfolding y h_def wrap_def by (simp add: fail)
  qed
  have "wrap (h e) = (NL # tail, g(2 := e, 1 := a # stem' @ CHR ''.'' # e))"
    unfolding wrap_def h_def E_def s_def by simp
  with ok have here: "leads x (K (wrap (h e)))" by simp
  have "leads x (concat (map K (map (wrap \<circ> h) ys @ wrap (h e) # map wrap (map h zs @ more))))"
    by (rule leads_concat[OF early here])
  then have "leads x (concat (map K
      (run (Group 1 (cats [Rep1 (IsNot NL), Atom (Is (CHR ''.'')), Group 2 ext])) (s, g))))"
    by (simp only: grp)
  then show ?thesis unfolding s_def .
qed


lemma hash_not_space: "\<not> isspace (CHR ''#'')"
  by code_simp

lemma heading_match:
  assumes hashes: "hashes = ''##'' \<or> hashes = ''###''"
    and ws: "ws \<noteq> []" "list_all isspace ws"
    and stem: "stem \<noteq> []" "NL \<notin> set stem" "\<not> isspace (hd stem)"
    and e: "e \<in> set extensions"
    and tag: "list_all isword tag"
    and nf: "\<not> contains ''```'' (body @ ''``'')"
  shows "\<exists>c g. leads (post, g)
           (run pattern2
              (hashes @ ws @ stem @ ''.'' @ e @ NL # ''```'' @ tag @ NL # body @ ''```'' @ post,
               \<lambda>_. []))
         \<and> g 1 = stem @ ''.'' @ e \<and> g 2 = e \<and> g 3 = c \<and> strip c = strip body"
proof -
  from stem(1) obtain a stem' where st: "stem = a # stem'" by (cases stem) auto
  from ws(1) obtain b ws' where wsc: "ws = b # ws'" by (cases ws) auto
  define tail where "tail = ''```'' @ tag @ NL # body @ ''```'' @ post"
  define T where "T = a # (stem' @ CHR ''.'' # e) @ NL # tail"
  define g0 :: caps where "g0 = (\<lambda>_. [])"
  define g1 where "g1 = g0(2 := e, 1 := a # stem' @ CHR ''.'' # e)"
  define K3 where "K3 = run (cats [Rep SpaceCh, Atom (Is NL), fence])"
  define inner where "inner = cats [Rep1 (IsNot NL), Atom (Is (CHR ''.'')), Group 2 ext]"
  from tail_stage[OF tag nf, of post g1] obtain c where
    c: "leads (post, g1(3 := c)) (K3 (NL # tail, g1))" and sc: "strip c = strip body"
    unfolding K3_def tail_def by blast
  have n: "leads (post, g1(3 := c)) (concat (map K3 (run (Group 1 inner) (T, g0))))"
    unfolding T_def inner_def
  proof (rule name_stage)
    show "NL \<notin> set (a # stem')" using stem(2) st by simp
    show "e \<in> set extensions" by (rule e)
    show "leads (post, g1(3 := c)) (K3 (NL # tail, g0(2 := e, 1 := a # stem' @ CHR ''.'' # e)))"
      using c by (simp add: g1_def)
    show "K3 (x # rest, g') = []" if "\<not> isspace x" for x rest g'
      unfolding K3_def using that by (rule tail_fail)
  qed
  define K4 where "K4 = run (cats [Group 1 inner, Rep SpaceCh, Atom (Is NL), fence])"
  from n have k4: "leads (post, g1(3 := c)) (K4 (T, g0))"
    unfolding K4_def K3_def by (simp only: run_cats_Cons)
  define K5 where
    "K5 = run (cats [Rep1 SpaceCh, Group 1 inner, Rep SpaceCh, Atom (Is NL), fence])"
  have "leads (post, g1(3 := c)) (concat (map K4 (run (Rep1 SpaceCh) (b # (ws' @ []) @ T, g0))))"
  proof (rule rep1_stage)
    show "accepts SpaceCh b" using ws(2) wsc by simp
    show "list_all (accepts SpaceCh) (ws' @ [])" using ws(2) wsc by (simp add: list_all_iff)
    show "stops (accepts SpaceCh) T" unfolding T_def stops_def using stem(3) st by simp
    show "K4 (u @ T, g0) = []" if "suffix u []" "u \<noteq> []" for u using that by simp
    show "leads (post, g1(3 := c)) (K4 ([] @ T, g0))" using k4 by simp
  qed
  then have k5: "leads (post, g1(3 := c)) (K5 (ws @ T, g0))"
    unfolding K5_def K4_def wsc by (simp add: run_cats_Cons)
  have p2: "pattern2 = cats (lit ''##'' # Opt (Atom (Is (CHR ''#''))) #
      [Rep1 SpaceCh, Group 1 inner, Rep SpaceCh, Atom (Is NL), fence])"
    unfolding pattern2_def inner_def by simp
  have bh: "b \<noteq> CHR ''#''" using ws(2) wsc hash_not_space by auto
  have "leads (post, g1(3 := c)) (run pattern2 (hashes @ ws @ T, g0))"
    using hashes
  proof
    assume h: "hashes = ''##''"
    have "run pattern2 (''##'' @ ws @ T, g0) = K5 (ws @ T, g0)"
      unfolding p2 run_lit_cats run_opt_cats K5_def wsc using bh
      by (simp add: run_atom_cats)
    with k5 show ?thesis unfolding h by simp
  next
    assume h: "hashes = ''###''"
    have "run pattern2 (''##'' @ CHR ''#'' # ws @ T, g0)
        = K5 (ws @ T, g0) @ K5 (CHR ''#'' # ws @ T, g0)"
      unfolding p2 run_lit_cats run_opt_cats K5_def
      by (simp add: run_atom_cats)
    with k5 show ?thesis unfolding h by (simp add: leads_append)
  qed
  moreover have "hashes @ ws @ T
      = hashes @ ws @ stem @ ''.'' @ e @ NL # ''```'' @ tag @ NL # body @ ''```'' @ post"
    unfolding T_def tail_def st by simp
  moreover have "(g1(3 := c)) 1 = stem @ ''.'' @ e" "(g1(3 := c)) 2 = e" "(g1(3 := c)) 3 = c"
    unfolding g1_def st by simp_all
  ultimately show ?thesis using sc unfolding g0_def by metis
qed


lemma pattern2_needs_hashes: "\<not> prefix ''##'' s \<Longrightarrow> match_here pattern2 s = None"
proof -
  assume "\<not> prefix ''##'' s"
  then have "run pattern2 (s, \<lambda>_. []) = []"
    unfolding pattern2_def by (simp only: run_cats_Cons run_lit if_False) simp
  then show ?thesis by (simp add: match_here_def)
qed

lemma no_early_hashes:
  assumes "\<not> contains ''##'' (pre @ ''#'')" "suffix u pre" "u \<noteq> []"
  shows "\<not> prefix ''##'' (u @ CHR ''#'' # rest)"
proof
  assume p: "prefix ''##'' (u @ CHR ''#'' # rest)"
  have "prefix (u @ ''#'') (u @ CHR ''#'' # rest)" by simp
  moreover from assms(3) have "length ''##'' \<le> length (u @ ''#'')" by (cases u) simp_all
  ultimately have "prefix ''##'' (u @ ''#'')" using p by (rule prefix_length_prefix[rotated])
  then obtain r where r: "u @ ''#'' = ''##'' @ r" by (auto simp: prefix_def)
  from assms(2) obtain v where "pre = v @ u" by (auto simp: suffix_def)
  with r have "pre @ ''#'' = v @ ''##'' @ r" by simp
  then have "contains ''##'' (pre @ ''#'')" unfolding contains_iff by blast
  with assms(1) show False by simp
qed

lemma findall_match:
  assumes "leads (post, g) (run r (s, \<lambda>_. []))" "length post < length s"
  shows "findall r s = [g 1, g 2, g 3] # findall r post"
proof -
  from assms(1) have "match_here r s = Some (post, g)" by (rule match_here_leads)
  with assms(2) show ?thesis by (subst findall.simps) simp
qed

lemma strip_id:
  assumes "s \<noteq> []" "\<not> isspace (hd s)" "\<not> isspace (last s)"
  shows "strip s = s"
proof -
  from assms(1,2) have 1: "dropWhile isspace s = s" by (cases s) simp_all
  from assms(1,3) have "\<not> isspace (hd (rev s))" by (simp add: hd_rev)
  with assms(1) have "dropWhile isspace (rev s) = rev s" by (cases "rev s") simp_all
  with 1 show ?thesis by (simp add: strip_def)
qed

lemma set_tl_suffixes: "set (tl (suffixes pre)) = {u. suffix u pre \<and> u \<noteq> []}"
proof (intro set_eqI iffI)
  fix u assume "u \<in> set (tl (suffixes pre))"
  then show "u \<in> {u. suffix u pre \<and> u \<noteq> []}" by (auto dest: tl_suffixes_nonempty)
next
  fix u assume "u \<in> {u. suffix u pre \<and> u \<noteq> []}"
  then have u: "u \<in> set (suffixes pre)" "u \<noteq> []" by simp_all
  have "suffixes pre = [] # tl (suffixes pre)"
    by (metis hd_suffixes list.collapse suffixes_not_Nil)
  with u show "u \<in> set (tl (suffixes pre))" by (metis set_ConsD)
qed

lemma clear_beforeD:
  assumes "clear_before r pre d" "suffix u pre" "u \<noteq> []" "match_here r (u @ d) = Some (rest, g)"
  shows "length d \<le> length rest"
proof -
  from assms(2,3) have "u \<in> set (tl (suffixes pre))" by (simp add: set_tl_suffixes)
  with assms(1) have "case match_here r (u @ d) of None \<Rightarrow> True
      | Some (rest, g) \<Rightarrow> length d \<le> length rest"
    unfolding clear_before_def list_all_iff by blast
  with assms(4) show ?thesis by simp
qed

lemma clear_before_suffix:
  assumes "clear_before r pre d" "suffix v pre"
  shows "clear_before r v d"
proof -
  have "set (tl (suffixes v)) \<subseteq> set (tl (suffixes pre))"
    unfolding set_tl_suffixes using assms(2) by (auto intro: suffix_order.trans)
  with assms(1) show ?thesis unfolding clear_before_def list_all_iff by blast
qed

lemma suffix_behind:
  assumes "s @ d = w @ rest" "length d \<le> length rest"
  shows "\<exists>u. rest = u @ d \<and> s = w @ u"
proof -
  from assms(1) consider us where "s = w @ us" "rest = us @ d"
    | us where "s @ us = w" "d = us @ rest"
    by (auto simp: append_eq_append_conv2)
  then show ?thesis
  proof cases
    case 1
    then show ?thesis by blast
  next
    case 2
    with assms(2) have "us = []" by simp
    with 2 show ?thesis by simp
  qed
qed

lemma match_here_sound:
  assumes "match_here r s = Some (rest, g)"
  shows "\<exists>w. w \<in> lang r \<and> s = w @ rest"
proof -
  from assms have "(rest, g) \<in> set (run r (s, \<lambda>_. []))"
    by (auto simp: match_here_def split: list.splits)
  then show ?thesis by (rule run_sound)
qed

lemma findall_clear:
  assumes p: "p = pattern1 \<or> p = pattern2 \<or> p = pattern3"
  shows "clear_before p pre d \<Longrightarrow> \<exists>ms. findall p (pre @ d) = ms @ findall p d"
proof (induction "length pre" arbitrary: pre rule: less_induct)
  case less
  show ?case
  proof (cases pre)
    case Nil
    then have "findall p (pre @ d) = [] @ findall p d" by simp
    then show ?thesis by blast
  next
    case (Cons x pre')
    show ?thesis
    proof (cases "match_here p (pre @ d)")
      case None
      then have "findall p (pre @ d) = findall p (pre' @ d)"
        by (subst findall.simps) (simp add: Cons)
      moreover have "clear_before p pre' d"
        using less.prems by (rule clear_before_suffix) (simp add: Cons suffix_Cons)
      then have "\<exists>ms. findall p (pre' @ d) = ms @ findall p d"
        by (intro less.hyps) (simp add: Cons)
      ultimately show ?thesis by simp
    next
      case (Some st)
      obtain rest g where st: "st = (rest, g)" by (cases st)
      from Some st have m: "match_here p (pre @ d) = Some (rest, g)" by simp
      from patterns_consume[OF p m] have short: "length rest < length (pre @ d)" .
      from match_here_sound[OF m] obtain w where w: "pre @ d = w @ rest" by blast
      have "length d \<le> length rest"
        using less.prems _ _ m by (rule clear_beforeD) (simp_all add: Cons)
      from suffix_behind[OF w this] obtain u where u: "rest = u @ d" "pre = w @ u" by blast
      from short u have lu: "length u < length pre" by simp
      from u(2) have "suffix u pre" by (simp add: suffix_def)
      with less.prems have "clear_before p u d" by (rule clear_before_suffix)
      with lu have "\<exists>ms. findall p (u @ d) = ms @ findall p d" by (intro less.hyps)
      then obtain ms where ms: "findall p (u @ d) = ms @ findall p d" by blast
      have "findall p (pre @ d) = [g 1, g 2, g 3] # findall p rest"
        using m short by (subst findall.simps) simp
      with ms u(1) have "findall p (pre @ d) = ([g 1, g 2, g 3] # ms) @ findall p d" by simp
      then show ?thesis by blast
    qed
  qed
qed

lemma clear_before_no_hashes:
  assumes "\<not> contains ''##'' (pre @ ''#'')"
  shows "clear_before pattern2 pre (CHR ''#'' # rest)"
proof -
  have "match_here pattern2 (u @ CHR ''#'' # rest) = None"
    if "u \<in> set (tl (suffixes pre))" for u
  proof -
    from that have "suffix u pre" "u \<noteq> []" by (auto dest: tl_suffixes_nonempty)
    with assms have "\<not> prefix ''##'' (u @ CHR ''#'' # rest)" by (rule no_early_hashes)
    then show ?thesis by (rule pattern2_needs_hashes)
  qed
  then show ?thesis by (simp add: clear_before_def list_all_iff)
qed

text \<open>
  C2, as the code has it.  Take a heading line with two or three leading heading
  markers, then whitespace, then a text that is a non-empty name, a dot and a
  recognized extension (the text starts with no whitespace and has no line break),
  immediately followed by a fenced code block: the opening fence with an optional
  language tag of word characters, a line break, the body, and the closing fence as
  the first three backticks after that.  If no match of the heading pattern that
  starts earlier in the document reaches into the heading (as one does whose own block
  is still open there), the heading strategy produces a match for it: its path is the
  heading text and its content is the fenced body, trimmed; the scan goes on behind
  the closing fence; and the entry with that path and content is stored if the
  command-block filter keeps the body, and nothing is stored otherwise.
\<close>

theorem heading_strategy:
  assumes hashes: "hashes = ''##'' \<or> hashes = ''###''"
    and ws: "ws \<noteq> []" "list_all isspace ws"
    and stem: "stem \<noteq> []" "NL \<notin> set stem" "\<not> isspace (hd stem)"
    and e: "e \<in> set extensions"
    and tag: "list_all isword tag"
    and nf: "\<not> contains ''```'' (body @ ''``'')"
    and pre: "clear_before pattern2 pre
                (hashes @ ws @ stem @ ''.'' @ e @ [NL] @ ''```'' @ tag @ [NL] @ body
                   @ ''```'' @ post)"
  shows "\<exists>ms m. findall pattern2
               (pre @ hashes @ ws @ stem @ ''.'' @ e @ [NL] @ ''```'' @ tag @ [NL] @ body
                  @ ''```'' @ post)
             = ms @ m # findall pattern2 post
           \<and> match_path m = stem @ ''.'' @ e
           \<and> match_content m = strip body
           \<and> store_match fd m =
               (if kept (strip body) then AList.update (stem @ ''.'' @ e) (strip body) fd
                else fd)"
proof -
  define d where
    "d = hashes @ ws @ stem @ ''.'' @ e @ NL # ''```'' @ tag @ NL # body @ ''```'' @ post"
  from heading_match[OF hashes ws stem e tag nf, of post] obtain c g where
    l: "leads (post, g) (run pattern2 (d, \<lambda>_. []))"
    and g: "g 1 = stem @ ''.'' @ e" "g 2 = e" "g 3 = c" and sc: "strip c = strip body"
    unfolding d_def by blast
  have len: "length post < length d" unfolding d_def by simp
  have cl: "clear_before pattern2 pre d" using pre unfolding d_def by simp
  have "\<exists>ms. findall pattern2 (pre @ d) = ms @ findall pattern2 d"
    by (rule findall_clear[OF _ cl]) simp
  then obtain ms where ms: "findall pattern2 (pre @ d) = ms @ findall pattern2 d" by blast
  have "findall pattern2 d = [g 1, g 2, g 3] # findall pattern2 post"
    using l len by (rule findall_match)
  with ms have f: "findall pattern2 (pre @ d) = ms @ [g 1, g 2, g 3] # findall pattern2 post"
    by simp
  let ?m = "[g 1, g 2, g 3]"
  from e have "e \<noteq> []" "\<not> isspace (last e)"
    using extensions_end by (auto simp: list_all_iff)
  with stem(1,3) have "strip (stem @ ''.'' @ e) = stem @ ''.'' @ e"
    by (intro strip_id) simp_all
  then have mp: "match_path ?m = stem @ ''.'' @ e" using g(1) by (simp add: match_path_def)
  have mc: "match_content ?m = strip body" using g(3) sc by (simp add: match_content_def)
  have "store_match fd ?m =
      (if kept (strip body) then AList.update (stem @ ''.'' @ e) (strip body) fd else fd)"
    unfolding store_match_kept mp mc by (rule refl)
  with f mp mc show ?thesis unfolding d_def by auto
qed

text \<open>A third-level heading behind a title, a section title and a paragraph; and a
  second heading behind a first one with its block, over a body the filter
  discards.\<close>

theorem heading_strategy_witness:
  "''tsx'' \<in> set extensions \<and> list_all isword ''tsx''
   \<and> \<not> contains ''```'' (indented_body @ ''``'')
   \<and> clear_before pattern2 section_intro
        (''###'' @ '' '' @ ''src/app'' @ ''.'' @ ''tsx'' @ [NL] @ ''```'' @ ''tsx'' @ [NL]
           @ indented_body @ ''```'' @ [])
   \<and> kept (strip indented_body)
   \<and> (\<exists>ms m. findall pattern2
               (section_intro @ ''###'' @ '' '' @ ''src/app'' @ ''.'' @ ''tsx'' @ [NL] @ ''```''
                  @ ''tsx'' @ [NL] @ indented_body @ ''```'' @ [])
             = ms @ m # findall pattern2 []
           \<and> match_path m = ''src/app'' @ ''.'' @ ''tsx''
           \<and> match_content m = strip indented_body
           \<and> store_match [] m = AList.update (''src/app'' @ ''.'' @ ''tsx'') (strip indented_body) [])
   \<and> strip indented_body = ''x = 1''
   \<and> ''sh'' \<in> set extensions
   \<and> \<not> contains ''```'' (install_body @ ''``'')
   \<and> clear_before pattern2 first_block
        (''##'' @ '' '' @ ''b'' @ ''.'' @ ''sh'' @ [NL] @ ''```'' @ [] @ [NL]
           @ install_body @ ''```'' @ [NL])
   \<and> \<not> kept (strip install_body)
   \<and> (\<exists>ms m. findall pattern2
               (first_block @ ''##'' @ '' '' @ ''b'' @ ''.'' @ ''sh'' @ [NL] @ ''```''
                  @ [] @ [NL] @ install_body @ ''```'' @ [NL])
             = ms @ m # findall pattern2 [NL]
           \<and> match_path m = ''b'' @ ''.'' @ ''sh''
           \<and> match_content m = strip install_body
           \<and> store_match [(''b.sh'', ''old'')] m = [(''b.sh'', ''old'')])
   \<and> findall pattern2
        (first_block @ ''##'' @ '' '' @ ''b'' @ ''.'' @ ''sh'' @ [NL] @ ''```''
           @ [] @ [NL] @ install_body @ ''```'' @ [NL])
       = [[''a.py'', ''py'', ''x'' @ [NL]], [''b.sh'', ''sh'', ''npm install'' @ [NL]]]"
proof -
  have h1: "''###'' = ''##'' \<or> ''###'' = ''###''" by simp
  have h2: "'' '' \<noteq> []" "list_all isspace '' ''" by code_simp+
  have h3: "''src/app'' \<noteq> []" "NL \<notin> set ''src/app''" "\<not> isspace (hd ''src/app'')"
    by code_simp+
  have h4: "''tsx'' \<in> set extensions" by code_simp
  have h5: "list_all isword ''tsx''" by code_simp
  have h6: "\<not> contains ''```'' (indented_body @ ''``'')" by code_simp
  have h7: "clear_before pattern2 section_intro
        (''###'' @ '' '' @ ''src/app'' @ ''.'' @ ''tsx'' @ [NL] @ ''```'' @ ''tsx'' @ [NL]
           @ indented_body @ ''```'' @ [])" by code_simp
  have h8: "kept (strip indented_body)" by code_simp
  have v: "strip indented_body = ''x = 1''" by code_simp
  from heading_strategy[OF h1 h2 h3 h4 h5 h6 h7, of "[]"] obtain ms m where
    a: "findall pattern2
               (section_intro @ ''###'' @ '' '' @ ''src/app'' @ ''.'' @ ''tsx'' @ [NL] @ ''```''
                  @ ''tsx'' @ [NL] @ indented_body @ ''```'' @ [])
             = ms @ m # findall pattern2 []"
      "match_path m = ''src/app'' @ ''.'' @ ''tsx''"
      "match_content m = strip indented_body"
    and st: "store_match [] m =
        (if kept (strip indented_body)
         then AList.update (''src/app'' @ ''.'' @ ''tsx'') (strip indented_body) [] else [])"
    by blast
  from st h8 have "store_match [] m
      = AList.update (''src/app'' @ ''.'' @ ''tsx'') (strip indented_body) []"
    by (simp only: if_True)
  with a have first: "\<exists>ms m. findall pattern2
               (section_intro @ ''###'' @ '' '' @ ''src/app'' @ ''.'' @ ''tsx'' @ [NL] @ ''```''
                  @ ''tsx'' @ [NL] @ indented_body @ ''```'' @ [])
             = ms @ m # findall pattern2 []
           \<and> match_path m = ''src/app'' @ ''.'' @ ''tsx''
           \<and> match_content m = strip indented_body
           \<and> store_match [] m = AList.update (''src/app'' @ ''.'' @ ''tsx'') (strip indented_body) []"
    by blast
  have k1: "''##'' = ''##'' \<or> ''##'' = ''###''" by simp
  have k3: "''b'' \<noteq> []" "NL \<notin> set ''b''" "\<not> isspace (hd ''b'')" by code_simp+
  have k4: "''sh'' \<in> set extensions" by code_simp
  have k5: "list_all isword []" by simp
  have k6: "\<not> contains ''```'' (install_body @ ''``'')" by code_simp
  have k7: "clear_before pattern2 first_block
        (''##'' @ '' '' @ ''b'' @ ''.'' @ ''sh'' @ [NL] @ ''```'' @ [] @ [NL]
           @ install_body @ ''```'' @ [NL])" by code_simp
  have k8: "\<not> kept (strip install_body)" by code_simp
  from heading_strategy[OF k1 h2 k3 k4 k5 k6 k7, of "[(''b.sh'', ''old'')]"] obtain ms' m' where
    b: "findall pattern2
               (first_block @ ''##'' @ '' '' @ ''b'' @ ''.'' @ ''sh'' @ [NL] @ ''```''
                  @ [] @ [NL] @ install_body @ ''```'' @ [NL])
             = ms' @ m' # findall pattern2 [NL]"
      "match_path m' = ''b'' @ ''.'' @ ''sh''"
      "match_content m' = strip install_body"
    and st': "store_match [(''b.sh'', ''old'')] m' =
        (if kept (strip install_body)
         then AList.update (''b'' @ ''.'' @ ''sh'') (strip install_body) [(''b.sh'', ''old'')]
         else [(''b.sh'', ''old'')])"
    by blast
  from st' k8 have "store_match [(''b.sh'', ''old'')] m' = [(''b.sh'', ''old'')]"
    by (simp only: if_False)
  with b have second: "\<exists>ms m. findall pattern2
               (first_block @ ''##'' @ '' '' @ ''b'' @ ''.'' @ ''sh'' @ [NL] @ ''```''
                  @ [] @ [NL] @ install_body @ ''```'' @ [NL])
             = ms @ m # findall pattern2 [NL]
           \<and> match_path m = ''b'' @ ''.'' @ ''sh''
           \<and> match_content m = strip install_body
           \<and> store_match [(''b.sh'', ''old'')] m = [(''b.sh'', ''old'')]"
    by blast
  have all: "findall pattern2
        (first_block @ ''##'' @ '' '' @ ''b'' @ ''.'' @ ''sh'' @ [NL] @ ''```''
           @ [] @ [NL] @ install_body @ ''```'' @ [NL])
       = [[''a.py'', ''py'', ''x'' @ [NL]], [''b.sh'', ''sh'', ''npm install'' @ [NL]]]"
    by code_simp
  show ?thesis by (intro conjI h4 h5 h6 h7 h8 first v k4 k6 k7 k8 second all)
qed

text \<open>
  As the specification states it, the property fails.  A heading with one marker is
  not matched at all; a
  heading with two markers is matched but stores nothing when its body is a short
  command transcript; a heading whose text is only a dot and an extension is not
  matched; and a heading with its block that stands where the block of an earlier
  heading is still open is taken as part of that block.
\<close>

theorem heading_counterexample:
  "findall pattern2 doc_h1 = []
   \<and> extract_files_from_markdown doc_h1 = []
   \<and> findall pattern2 doc_h2_command = [[''setup.sh'', ''sh'', ''npm install'' @ [NL]]]
   \<and> extract_files_from_markdown doc_h2_command = []
   \<and> findall pattern2 doc_h2_dotfile = []
   \<and> extract_files_from_markdown doc_h2_dotfile = []
   \<and> doc_swallowed = (''## notes.md'' @ [NL] @ ''```'' @ [NL] @ ''draft'' @ [NL])
        @ (''## b.py'' @ [NL] @ ''```'' @ [NL] @ ''y'' @ [NL] @ ''```'')
   \<and> findall pattern2 doc_swallowed
       = [[''notes.md'', ''md'', ''draft'' @ [NL] @ ''## b.py'' @ [NL]]]
   \<and> extract_files_from_markdown doc_swallowed
       = [(''notes.md'', ''draft'' @ [NL] @ ''## b.py'')]
   \<and> \<not> clear_before pattern2 (''## notes.md'' @ [NL] @ ''```'' @ [NL] @ ''draft'' @ [NL])
          (''## b.py'' @ [NL] @ ''```'' @ [NL] @ ''y'' @ [NL] @ ''```'')"
  by code_simp


end
